theory Spec2Isabelle
  imports Main "HOL-Library.Word" "HOL-Library.Signed_Division" "HOL-Library.Sublist"
begin

section \<open>The C data of du.c\<close>

text \<open>
  The program is compiled for an LP64 Linux target: \<open>int\<close> has 32 bits, \<open>size_t\<close>,
  \<open>ino_t\<close>, \<open>nlink_t\<close> are unsigned 64-bit and \<open>blkcnt_t\<close> is a signed 64-bit
  \<open>long\<close>.  Sizes are words, so the conversions between \<open>long\<close>, \<open>size_t\<close> and
  \<open>int\<close> that the code performs on them wrap as the compiler makes them wrap.  The two
  counters of the inode array are C \<open>int\<close>s on which the code does arithmetic; they are
  modelled as integers, and an operation whose result would leave the range of \<open>int\<close>
  (undefined behaviour in C) is an explicit outcome of the model.
\<close>

type_synonym ino_t = "64 word"
type_synonym size_t = "64 word"

definition TRUE :: int where
  "TRUE = 1"

definition FALSE :: int where
  "FALSE = 0"

definition INODES_CAPACITY :: int where
  "INODES_CAPACITY = 16"

definition INT_MAX :: int where
  "INT_MAX = 2147483647"

definition INT_MIN :: int where
  "INT_MIN = - 2147483648"

text \<open>\<open>visited_inodes\<close>: the struct of lines 23-27.  \<open>arr\<close> is the allocated block, one
  list element per slot.\<close>

record visited_inodes =
  num :: int
  cap :: int
  arr :: "ino_t list"

text \<open>The fields of \<open>struct stat\<close> that du.c reads.\<close>

record stat =
  st_mode :: "32 word"
  st_nlink :: "64 word"
  st_ino :: ino_t
  st_blocks :: "64 word"

text \<open>
  What the operating system answers.  \<open>sys_readdir p\<close> is the sequence of names that
  \<open>opendir p\<close> followed by \<open>readdir\<close> until \<open>NULL\<close> yields, or \<open>None\<close> when
  \<open>opendir\<close> fails; \<open>sys_lstat\<close> and \<open>sys_stat\<close> are \<open>lstat\<close> and \<open>stat\<close>
  (\<open>None\<close> when the call returns \<open>-1\<close>); \<open>sys_realloc_ok n\<close> tells whether a
  \<open>realloc\<close> to \<open>n\<close> bytes succeeds.  The file system does not change during a run.
\<close>

record sys =
  sys_readdir :: "string \<Rightarrow> string list option"
  sys_lstat :: "string \<Rightarrow> stat option"
  sys_stat :: "string \<Rightarrow> stat option"
  sys_realloc_ok :: "nat \<Rightarrow> bool"

text \<open>What a run writes to standard output: a line of \<open>printSize\<close> or another text.\<close>

datatype printed = Report size_t string | Message string

text \<open>
  How a call can end without returning: \<open>exit\<close> with a status, or a step to which C
  gives no meaning (a store outside the array, signed overflow, \<open>readdir\<close> on a null
  directory stream, reading a \<open>struct stat\<close> that a failed \<open>lstat\<close> left unset).
\<close>

datatype error = Exit int | Undefined

text \<open>The file type macros of \<open><sys/stat.h>\<close>, with the values of Linux.\<close>

definition S_IFMT :: "32 word" where
  "S_IFMT = 0xF000"

definition S_IFDIR :: "32 word" where
  "S_IFDIR = 0x4000"

definition S_IFREG :: "32 word" where
  "S_IFREG = 0x8000"

definition S_IFLNK :: "32 word" where
  "S_IFLNK = 0xA000"

definition S_ISDIR :: "32 word \<Rightarrow> bool" where
  "S_ISDIR m = (and m S_IFMT = S_IFDIR)"

definition S_ISREG :: "32 word \<Rightarrow> bool" where
  "S_ISREG m = (and m S_IFMT = S_IFREG)"

definition S_ISLNK :: "32 word \<Rightarrow> bool" where
  "S_ISLNK m = (and m S_IFMT = S_IFLNK)"

text \<open>\<open>st_blocks / 2\<close>: division of a signed 64-bit \<open>long\<close>, rounding towards zero.\<close>

definition blocks_div_2 :: "64 word \<Rightarrow> 64 word" where
  "blocks_div_2 b = word_of_int (sint b sdiv 2)"

section \<open>The inode array\<close>

text \<open>
  \<open>realloc\<close> of the inode array to a number of bytes: the old slots that fit are
  kept; the new slots are indeterminate in C and hold 0 here (no function of du.c reads
  a slot at an index from \<open>num\<close> on).
\<close>

definition realloc :: "sys \<Rightarrow> ino_t list \<Rightarrow> size_t \<Rightarrow> ino_t list option" where
  "realloc s xs bytes =
     (if sys_realloc_ok s (unat bytes)
      then Some (take (unat bytes div 8) xs @ replicate (unat bytes div 8 - length xs) 0)
      else None)"

text \<open>\<open>addInode\<close>, lines 36-49.\<close>

definition addInode :: "sys \<Rightarrow> visited_inodes \<Rightarrow> ino_t \<Rightarrow> printed list \<times> (error + visited_inodes)" where
  "addInode s visited inode =
     (if num visited < 0 \<or> int (length (arr visited)) \<le> num visited \<or> INT_MAX \<le> num visited
      then ([], Inl Undefined)
      else
        let v1 = visited\<lparr>arr := (arr visited)[nat (num visited) := inode],
                         num := num visited + 1\<rparr>
        in if num v1 = cap v1
           then (if cap v1 * 2 < INT_MIN \<or> INT_MAX < cap v1 * 2
                 then ([], Inl Undefined)
                 else
                   let v2 = v1\<lparr>cap := cap v1 * 2\<rparr>
                   in (case realloc s (arr v2) (word_of_int (cap v2) * 8) of
                         None \<Rightarrow> ([Message ''addInode(): error reallocing''], Inl (Exit 1))
                       | Some newArr \<Rightarrow> ([], Inr (v2\<lparr>arr := newArr\<rparr>))))
           else ([], Inr v1))"

text \<open>\<open>isInodeVisited\<close>, lines 55-61: the loop from index \<open>i\<close> on.\<close>

function isInodeVisited_from :: "visited_inodes \<Rightarrow> ino_t \<Rightarrow> int \<Rightarrow> error + int" where
  "isInodeVisited_from visited inode i =
     (if i < num visited
      then (if i < 0 \<or> int (length (arr visited)) \<le> i then Inl Undefined
            else if inode = arr visited ! nat i then Inr TRUE
            else isInodeVisited_from visited inode (i + 1))
      else Inr FALSE)"
  by pat_completeness auto
termination
  by (relation "measure (\<lambda>(visited, inode, i). nat (num visited - i))") auto

definition isInodeVisited :: "visited_inodes \<Rightarrow> ino_t \<Rightarrow> error + int" where
  "isInodeVisited visited inode = isInodeVisited_from visited inode 0"

section \<open>Sizes of files\<close>

text \<open>
  \<open>getFileSize\<close>, lines 99-106.  The result is a C \<open>int\<close> of 32 bits: the low 32
  bits of \<open>st_blocks / 2\<close>.  (For a value outside the range of \<open>int\<close> C leaves the
  conversion to the implementation; gcc and clang reduce it modulo 4294967296, and no
  conversion can keep a value that an \<open>int\<close> cannot hold.)
\<close>

definition getFileSize :: "sys \<Rightarrow> stat \<Rightarrow> visited_inodes \<Rightarrow> printed list \<times> (error + 32 word \<times> visited_inodes)" where
  "getFileSize s file_stat visited =
     (if 1 < st_nlink file_stat
      then (case isInodeVisited visited (st_ino file_stat) of
              Inl e \<Rightarrow> ([], Inl e)
            | Inr b \<Rightarrow>
                if b \<noteq> 0 then ([], Inr (0, visited))
                else (case addInode s visited (st_ino file_stat) of
                        (out, Inl e) \<Rightarrow> (out, Inl e)
                      | (out, Inr visited') \<Rightarrow>
                          (out, Inr (ucast (blocks_div_2 (st_blocks file_stat)), visited'))))
      else ([], Inr (ucast (blocks_div_2 (st_blocks file_stat)), visited)))"

section \<open>The directory walk\<close>

text \<open>\<open>printSize\<close>, lines 68-70: one line \<open>size TAB path\<close>.\<close>

definition printSize :: "string \<Rightarrow> size_t \<Rightarrow> printed list" where
  "printSize path sz = [Report sz path]"

text \<open>\<open>createPath\<close>, lines 76-88 (the \<open>calloc\<close> of the buffer is taken to succeed).\<close>

definition createPath :: "string \<Rightarrow> string \<Rightarrow> string" where
  "createPath parent_path child_path = parent_path @ ''/'' @ child_path"

text \<open>What was printed so far, put in front of what the rest of a computation prints.\<close>

definition printed_before :: "printed list \<Rightarrow> (printed list \<times> 'a) option \<Rightarrow> (printed list \<times> 'a) option" where
  "printed_before out r = map_option (\<lambda>(out', x). (out @ out', x)) r"

text \<open>
  \<open>getDirectorySize\<close>, lines 117-157.  The first argument bounds the depth of the
  recursion: the result is \<open>None\<close> when the bound is reached, so a walk that never
  returns has the value \<open>None\<close> for every bound.  \<open>readdir_loop\<close> is the \<open>for\<close> loop
  of lines 123-154 over the names still to be read, with the running \<open>total\<close> (here
  \<open>tot\<close>).  The local variable \<open>errno\<close> of line 118 stays 0, so the loop ends with
  the names.  An \<open>int\<close> result stored into a \<open>size_t\<close> is sign-extended; the
  \<open>size_t\<close> total returned as \<open>int\<close> keeps its low 32 bits.
\<close>

fun getDirectorySize :: "nat \<Rightarrow> sys \<Rightarrow> string \<Rightarrow> visited_inodes \<Rightarrow> int \<Rightarrow> (printed list \<times> (error + 32 word \<times> visited_inodes)) option"
  and readdir_loop :: "nat \<Rightarrow> sys \<Rightarrow> string \<Rightarrow> string list \<Rightarrow> visited_inodes \<Rightarrow> int \<Rightarrow> size_t \<Rightarrow> (printed list \<times> (error + 32 word \<times> visited_inodes)) option"
  where
    "getDirectorySize 0 s path visited all_files = None"
  | "getDirectorySize (Suc n) s path visited all_files =
       (case sys_readdir s path of
          None \<Rightarrow> Some ([], Inl Undefined)
        | Some entries \<Rightarrow> readdir_loop n s path entries visited all_files 0)"
  | "readdir_loop n s path [] visited all_files tot = Some ([], Inr (ucast tot, visited))"
  | "readdir_loop n s path (entry_name # entries) visited all_files tot =
       (if entry_name = ''..'' then readdir_loop n s path entries visited all_files tot
        else
          let curr_path = createPath path entry_name
          in case sys_lstat s curr_path of
               None \<Rightarrow> Some ([], Inl Undefined)
             | Some entry_stat \<Rightarrow>
                 if entry_name = ''.''
                 then readdir_loop n s path entries visited all_files
                        (tot + blocks_div_2 (st_blocks entry_stat))
                 else if S_ISDIR (st_mode entry_stat)
                 then (case getDirectorySize n s curr_path visited all_files of
                         None \<Rightarrow> None
                       | Some (out, Inl e) \<Rightarrow> Some (out, Inl e)
                       | Some (out, Inr (r, visited')) \<Rightarrow>
                           printed_before (out @ printSize curr_path (scast r))
                             (readdir_loop n s path entries visited' all_files (tot + scast r)))
                 else if S_ISREG (st_mode entry_stat)
                 then (case getFileSize s entry_stat visited of
                         (out, Inl e) \<Rightarrow> Some (out, Inl e)
                       | (out, Inr (r, visited')) \<Rightarrow>
                           printed_before
                             (out @ (if all_files = TRUE then printSize curr_path (scast r) else []))
                             (readdir_loop n s path entries visited' all_files (tot + scast r)))
                 else readdir_loop n s path entries visited all_files tot)"

section \<open>The top level\<close>

definition printUsage :: "printed list" where
  "printUsage =
     [Message (''Usage: du [DIRECTORY]'' @ [CHR 0x0A]),
      Message (''Recursively summarize disk usage for directories.'' @ [CHR 0x0A])]"

text \<open>\<open>trimPath\<close>, lines 163-171: the loop at index \<open>i\<close>; writing \<open>'\0'\<close> at \<open>i\<close>
  cuts the string there.\<close>

function trimPath_loop :: "string \<Rightarrow> int \<Rightarrow> int \<Rightarrow> string \<times> int" where
  "trimPath_loop path i slash =
     (if 0 < i \<and> drop (nat i) path = ''/''
      then trimPath_loop (take (nat i) path) (i - 1) TRUE
      else (path, slash))"
  by pat_completeness auto
termination
  by (relation "measure (\<lambda>(path, i, slash). nat i)") auto

definition trimPath :: "string \<Rightarrow> string \<times> int" where
  "trimPath path = trimPath_loop path (int (length path) - 1) FALSE"

definition doesPathExist :: "sys \<Rightarrow> string \<Rightarrow> int" where
  "doesPathExist s path = (if sys_stat s path \<noteq> None then 1 else 0)"

definition parseOptions :: "string list \<Rightarrow> int" where
  "parseOptions argv =
     (if length argv = 3
      then (if argv ! 2 = ''-a'' \<or> argv ! 2 = ''--all'' then TRUE
            else if argv ! 1 = ''-a'' \<or> argv ! 1 = ''--all'' then TRUE
            else FALSE)
      else if length argv = 2
      then (if argv ! 1 = ''-a'' \<or> argv ! 1 = ''--all'' then TRUE else FALSE)
      else FALSE)"

definition parsePath :: "string list \<Rightarrow> string" where
  "parsePath argv =
     (if length argv = 3
      then (if argv ! 2 \<noteq> ''-a'' \<and> argv ! 2 \<noteq> ''--all'' then argv ! 2
            else if argv ! 1 \<noteq> ''-a'' \<and> argv ! 1 \<noteq> ''--all'' then argv ! 1
            else ''.'')
      else if length argv = 2
      then (if argv ! 1 \<noteq> ''-a'' \<and> argv ! 1 \<noteq> ''--all'' then argv ! 1 else ''.'')
      else ''.'')"

text \<open>The inode array as \<open>main\<close> sets it up, lines 224-226.\<close>

definition visited_init :: visited_inodes where
  "visited_init = \<lparr>num = 0, cap = INODES_CAPACITY, arr = replicate (nat INODES_CAPACITY) 0\<rparr>"

text \<open>
  \<open>main\<close>, lines 207-239, with \<open>argv\<close> as the list of its \<open>argc\<close> strings.  The result
  is what the process printed and how it ended; falling off the end of \<open>main\<close> is
  exit status 0.
\<close>

definition main :: "nat \<Rightarrow> sys \<Rightarrow> string list \<Rightarrow> (printed list \<times> error) option" where
  "main n s argv =
     (if 3 < length argv then Some (printUsage, Exit 0)
      else
        let all_files = parseOptions argv;
            (path, slash) = trimPath (parsePath argv)
        in if doesPathExist s path = 0
           then Some ([Message (''Error: path does not exist'' @ [CHR 0x0A])], Exit 1)
           else (case getDirectorySize n s path visited_init all_files of
                   None \<Rightarrow> None
                 | Some (out, Inl e) \<Rightarrow> Some (out, e)
                 | Some (out, Inr (r, visited')) \<Rightarrow>
                     Some (out @ printSize (if slash = TRUE then path @ ''/'' else path) (scast r),
                           Exit 0)))"

section \<open>Notions of the specification\<close>

text \<open>The visited-inode set: the inodes recorded so far, in the order of recording.\<close>

definition recorded :: "visited_inodes \<Rightarrow> ino_t list" where
  "recorded v = take (nat (num v)) (arr v)"

text \<open>A well-formed inode array: the block has \<open>cap\<close> slots and at least one is free.\<close>

definition visited_ok :: "visited_inodes \<Rightarrow> bool" where
  "visited_ok v \<longleftrightarrow>
     0 \<le> num v \<and> num v < cap v \<and> length (arr v) = nat (cap v) \<and> cap v \<le> INT_MAX"

text \<open>From \<open>v\<close> to \<open>v'\<close> the set was only extended, and stayed well formed and free of
  duplicates.\<close>

definition grows_to :: "visited_inodes \<Rightarrow> visited_inodes \<Rightarrow> bool" where
  "grows_to v v' \<longleftrightarrow>
     visited_ok v' \<and> prefix (recorded v) (recorded v') \<and>
     (distinct (recorded v) \<longrightarrow> distinct (recorded v'))"

text \<open>A path \<open>q\<close> is the entry \<open>e\<close> of directory \<open>path\<close> or lies beneath that entry.\<close>

definition lies_under :: "string \<Rightarrow> string \<Rightarrow> string \<Rightarrow> bool" where
  "lies_under path e q \<longleftrightarrow> q = createPath path e \<or> prefix (createPath path e @ ''/'') q"

text \<open>
  A finite directory tree: every directory has a height, and an entry of a directory other
  than \<open>.\<close> and \<open>..\<close> that is itself a directory has a smaller height than the
  directory.  Nothing is asked of the entries \<open>.\<close> and \<open>..\<close>.
\<close>

definition finite_tree :: "sys \<Rightarrow> (string \<Rightarrow> nat) \<Rightarrow> bool" where
  "finite_tree s height \<longleftrightarrow>
     (\<forall>p es e st. sys_readdir s p = Some es \<longrightarrow> e \<in> set es \<longrightarrow> e \<noteq> ''.'' \<longrightarrow> e \<noteq> ''..'' \<longrightarrow>
        sys_lstat s (createPath p e) = Some st \<longrightarrow> S_ISDIR (st_mode st) \<longrightarrow>
        height (createPath p e) < height p)"

text \<open>
  The allocation size of an entry in storage units, as a number: half the block count that
  \<open>lstat\<close> gives for it (the division is the one of C, which rounds towards zero).
\<close>

definition allocation_size :: "stat \<Rightarrow> int" where
  "allocation_size st = sint (st_blocks st) sdiv 2"

text \<open>
  The parts of a usage total, in the words of the specification, as numbers.
  \<open>own_size\<close> is the directory's own allocation size, taken from its \<open>.\<close> entry.
  \<open>child_sizes\<close> goes through the entries in the order of the scan and collects, first,
  the allocation size of every regular file that is not deduplicated away (a file with more
  than one link whose inode is already recorded is left out) and, second, the total that
  the recursive call returns for every subdirectory; it stops where the scan stops.
\<close>

definition own_size :: "sys \<Rightarrow> string \<Rightarrow> int" where
  "own_size s path =
     (case sys_lstat s (createPath path ''.'') of
        None \<Rightarrow> 0
      | Some st \<Rightarrow> allocation_size st)"

fun child_sizes :: "nat \<Rightarrow> sys \<Rightarrow> string \<Rightarrow> string list \<Rightarrow> visited_inodes \<Rightarrow> int \<Rightarrow> int list \<times> int list" where
  "child_sizes n s path [] v a = ([], [])"
| "child_sizes n s path (e # es) v a =
     (if e = ''.'' \<or> e = ''..'' then child_sizes n s path es v a
      else
        case sys_lstat s (createPath path e) of
          None \<Rightarrow> ([], [])
        | Some st \<Rightarrow>
            if S_ISDIR (st_mode st)
            then (case getDirectorySize n s (createPath path e) v a of
                    Some (out, Inr (r, v')) \<Rightarrow>
                      (fst (child_sizes n s path es v' a), sint r # snd (child_sizes n s path es v' a))
                  | _ \<Rightarrow> ([], []))
            else if S_ISREG (st_mode st)
            then (case getFileSize s st v of
                    (out, Inr (r, v')) \<Rightarrow>
                      ((if 1 < st_nlink st \<and> st_ino st \<in> set (recorded v) then []
                        else [allocation_size st])
                       @ fst (child_sizes n s path es v' a),
                       snd (child_sizes n s path es v' a))
                  | _ \<Rightarrow> ([], []))
            else child_sizes n s path es v a)"

text \<open>The paths of the report lines, in the order in which they were printed.\<close>

fun report_paths :: "printed list \<Rightarrow> string list" where
  "report_paths [] = []"
| "report_paths (Report sz p # out) = p # report_paths out"
| "report_paths (Message m # out) = report_paths out"

text \<open>\<open>q\<close> lies beneath the directory \<open>p\<close>.\<close>

definition beneath :: "string \<Rightarrow> string \<Rightarrow> bool" where
  "beneath q p \<longleftrightarrow> prefix (p @ ''/'') q"

text \<open>Children before their parent: no path is followed by a path beneath it.\<close>

fun children_first :: "string list \<Rightarrow> bool" where
  "children_first [] = True"
| "children_first (p # ps) = ((\<forall>q \<in> set ps. \<not> beneath q p) \<and> children_first ps)"

text \<open>A line that reports a regular file: the path is one that \<open>lstat\<close> classifies as a
  regular file.\<close>

definition file_line :: "sys \<Rightarrow> printed \<Rightarrow> bool" where
  "file_line s l =
     (case l of
        Report sz q \<Rightarrow>
          (case sys_lstat s q of
             None \<Rightarrow> False
           | Some st \<Rightarrow> \<not> S_ISDIR (st_mode st) \<and> S_ISREG (st_mode st))
      | Message m \<Rightarrow> False)"

text \<open>What every file system guarantees of a directory listing: no name occurs twice and
  no name contains a slash.\<close>

definition names_ok :: "sys \<Rightarrow> bool" where
  "names_ok s \<longleftrightarrow>
     (\<forall>p es. sys_readdir s p = Some es \<longrightarrow> distinct es \<and> (\<forall>e \<in> set es. CHR ''/'' \<notin> set e))"

section \<open>A small file system\<close>

text \<open>
  Paths are resolved as a file system resolves them: the components between slashes are
  followed from the root, \<open>.\<close> and empty components stay in place and \<open>..\<close> goes up
  (the root is its own parent).  \<open>canonical p\<close> is the resolved path, innermost name
  first.
\<close>

fun split_path :: "string \<Rightarrow> string list" where
  "split_path [] = [[]]"
| "split_path (c # cs) =
     (if c = CHR ''/'' then [] # split_path cs
      else (case split_path cs of [] \<Rightarrow> [[c]] | x # xs \<Rightarrow> (c # x) # xs))"

fun resolve :: "string list \<Rightarrow> string list \<Rightarrow> string list" where
  "resolve st [] = st"
| "resolve st (c # cs) =
     (if c = [] \<or> c = ''.'' then resolve st cs
      else if c = ''..'' then resolve (tl st) cs
      else resolve (c # st) cs)"

definition canonical :: "string \<Rightarrow> string list" where
  "canonical p = resolve [] (split_path p)"

text \<open>
  The root holds the directory \<open>d\<close>.  Directory \<open>d\<close> holds the file \<open>a\<close>, the
  directory \<open>sub\<close>, the file \<open>f\<close> and the symbolic link \<open>l\<close> to \<open>sub\<close>; \<open>sub\<close>
  holds \<open>b\<close>, a second hard link to the inode of \<open>a\<close>.  Every directory lists itself
  and its parent, so \<open>d/.\<close>, \<open>d/./.\<close>, \<open>d/sub/..\<close> and so on all are the directory
  \<open>d\<close> again.
\<close>

definition demo_root :: stat where
  "demo_root = \<lparr>st_mode = 0x41ED, st_nlink = 3, st_ino = 1, st_blocks = 8\<rparr>"

definition demo_dir :: stat where
  "demo_dir = \<lparr>st_mode = 0x41ED, st_nlink = 3, st_ino = 2, st_blocks = 8\<rparr>"

definition demo_sub :: stat where
  "demo_sub = \<lparr>st_mode = 0x41ED, st_nlink = 2, st_ino = 3, st_blocks = 2\<rparr>"

definition demo_link2 :: stat where
  "demo_link2 = \<lparr>st_mode = 0x81A4, st_nlink = 2, st_ino = 7, st_blocks = 16\<rparr>"

definition demo_file :: stat where
  "demo_file = \<lparr>st_mode = 0x81A4, st_nlink = 1, st_ino = 8, st_blocks = 4\<rparr>"

definition demo_symlink :: stat where
  "demo_symlink = \<lparr>st_mode = 0xA1FF, st_nlink = 1, st_ino = 9, st_blocks = 0\<rparr>"

definition demo_lstat :: "string \<Rightarrow> stat option" where
  "demo_lstat p =
     (let c = canonical p
      in if c = [] then Some demo_root
         else if c = [''d''] then Some demo_dir
         else if c = [''sub'', ''d''] then Some demo_sub
         else if c = [''a'', ''d''] \<or> c = [''b'', ''sub'', ''d''] \<or> c = [''b'', ''l'', ''d'']
         then Some demo_link2
         else if c = [''f'', ''d''] then Some demo_file
         else if c = [''l'', ''d''] then Some demo_symlink
         else None)"

definition demo_readdir :: "string \<Rightarrow> string list option" where
  "demo_readdir p =
     (let c = canonical p
      in if c = [] then Some [''.'', ''..'', ''d'']
         else if c = [''d''] then Some [''.'', ''..'', ''a'', ''sub'', ''f'', ''l'']
         else if c = [''sub'', ''d''] \<or> c = [''l'', ''d''] then Some [''..'', ''b'', ''.'']
         else None)"

definition demo_sys :: sys where
  "demo_sys =
     \<lparr>sys_readdir = demo_readdir,
      sys_lstat = demo_lstat,
      sys_stat = (\<lambda>p. if canonical p = [''l'', ''d''] then Some demo_sub else demo_lstat p),
      sys_realloc_ok = (\<lambda>n. True)\<rparr>"

text \<open>The height of the directory a path resolves to.\<close>

definition demo_height :: "string \<Rightarrow> nat" where
  "demo_height p =
     (let c = canonical p in if c = [] then 2 else if c = [''d''] then 1 else 0)"

text \<open>The inode array after the inode of \<open>a\<close> was recorded; an array with one free
  slot left; and a system whose \<open>realloc\<close> always fails.\<close>

definition demo_visited :: visited_inodes where
  "demo_visited = \<lparr>num = 1, cap = 16, arr = 7 # replicate 15 0\<rparr>"

definition demo_full :: visited_inodes where
  "demo_full = \<lparr>num = 15, cap = 16, arr = map of_nat [1..<16] @ [0]\<rparr>"

definition demo_no_memory :: sys where
  "demo_no_memory = demo_sys\<lparr>sys_realloc_ok := (\<lambda>n. False)\<rparr>"

text \<open>What the walk of \<open>d\<close> prints when all files are reported.\<close>

definition demo_out :: "printed list" where
  "demo_out = [Report 8 ''d/a'', Report 0 ''d/sub/b'', Report 1 ''d/sub'', Report 2 ''d/f'']"

text \<open>A system in which every directory is empty.\<close>

definition demo_empty :: sys where
  "demo_empty =
     \<lparr>sys_readdir = (\<lambda>p. Some [''.'', ''..'']),
      sys_lstat = (\<lambda>p. Some demo_sub),
      sys_stat = (\<lambda>p. Some demo_sub),
      sys_realloc_ok = (\<lambda>n. True)\<rparr>"

text \<open>
  Large files: one of 8589934592 blocks (4 TiB) with one link, one with two links, and a
  directory \<open>g\<close> that holds two files of 2147483648 blocks (1 TiB) each.
\<close>

definition demo_huge :: stat where
  "demo_huge = \<lparr>st_mode = 0x81A4, st_nlink = 1, st_ino = 23, st_blocks = 0x200000000\<rparr>"

definition demo_huge_link :: stat where
  "demo_huge_link = \<lparr>st_mode = 0x81A4, st_nlink = 2, st_ino = 24, st_blocks = 0x200000000\<rparr>"

definition demo_big :: sys where
  "demo_big =
     \<lparr>sys_readdir = (\<lambda>p. if p = ''g'' then Some [''.'', ''..'', ''x'', ''y''] else None),
      sys_lstat = (\<lambda>p. if p = ''g'' \<or> p = ''g/.'' then Some demo_dir
                        else if p = ''g/x''
                        then Some \<lparr>st_mode = 0x81A4, st_nlink = 1, st_ino = 21, st_blocks = 0x80000000\<rparr>
                        else if p = ''g/y''
                        then Some \<lparr>st_mode = 0x81A4, st_nlink = 1, st_ino = 22, st_blocks = 0x80000000\<rparr>
                        else None),
      sys_stat = (\<lambda>p. if p = ''g'' then Some demo_dir else None),
      sys_realloc_ok = (\<lambda>n. True)\<rparr>"

text \<open>A directory \<open>m\<close> of sixteen files, each with two links and an inode of its own, in
  a system whose \<open>realloc\<close> always fails.\<close>

definition demo_many :: sys where
  "demo_many =
     \<lparr>sys_readdir = (\<lambda>p. if p = ''m'' then Some (map (\<lambda>k. replicate k CHR ''x'') [1..<17]) else None),
      sys_lstat = (\<lambda>p. if p = ''m'' then Some demo_dir
                        else Some \<lparr>st_mode = 0x81A4, st_nlink = 2, st_ino = of_nat (length p),
                                   st_blocks = 2\<rparr>),
      sys_stat = (\<lambda>p. if p = ''m'' then Some demo_dir else None),
      sys_realloc_ok = (\<lambda>n. False)\<rparr>"

text \<open>
  Directory \<open>h\<close> holds \<open>p\<close> and \<open>q\<close>, two links to one file of 8589934592 blocks
  (4 TiB).
\<close>

definition demo_links :: sys where
  "demo_links =
     \<lparr>sys_readdir = (\<lambda>p. if p = ''h'' then Some [''.'', ''..'', ''p'', ''q''] else None),
      sys_lstat = (\<lambda>p. if p = ''h'' \<or> p = ''h/.'' then Some demo_dir
                        else if p = ''h/p'' \<or> p = ''h/q'' then Some demo_huge_link
                        else None),
      sys_stat = (\<lambda>p. if p = ''h'' then Some demo_dir else None),
      sys_realloc_ok = (\<lambda>n. True)\<rparr>"

text \<open>
  An inode array of 1073741824 slots with one free slot left; and the array that \<open>main\<close>
  sets up when \<open>calloc\<close> returns a null pointer: it has no slot.
\<close>

definition demo_limit :: visited_inodes where
  "demo_limit = \<lparr>num = 1073741823, cap = 1073741824, arr = replicate 1073741824 0\<rparr>"

definition demo_null :: visited_inodes where
  "demo_null = \<lparr>num = 0, cap = INODES_CAPACITY, arr = []\<rparr>"

section \<open>Induction over a walk\<close>

text \<open>The recursion of \<open>getDirectorySize\<close> and its loop, one case per path through the
  loop body.\<close>

lemma walk_induct [case_names no_fuel open_dir all_read dotdot no_stat dot subdir regular other]:
  fixes P :: "nat \<Rightarrow> sys \<Rightarrow> string \<Rightarrow> visited_inodes \<Rightarrow> int \<Rightarrow> bool"
    and Q :: "nat \<Rightarrow> sys \<Rightarrow> string \<Rightarrow> string list \<Rightarrow> visited_inodes \<Rightarrow> int \<Rightarrow> size_t \<Rightarrow> bool"
  assumes "\<And>s path v a. P 0 s path v a"
    and "\<And>n s path v a. (\<And>es. sys_readdir s path = Some es \<Longrightarrow> Q n s path es v a 0) \<Longrightarrow> P (Suc n) s path v a"
    and "\<And>n s path v a t. Q n s path [] v a t"
    and "\<And>n s path es v a t. Q n s path es v a t \<Longrightarrow> Q n s path (''..'' # es) v a t"
    and "\<And>n s path e es v a t. e \<noteq> ''..'' \<Longrightarrow> sys_lstat s (createPath path e) = None \<Longrightarrow> Q n s path (e # es) v a t"
    and "\<And>n s path es v a t st. sys_lstat s (createPath path ''.'') = Some st \<Longrightarrow>
           Q n s path es v a (t + blocks_div_2 (st_blocks st)) \<Longrightarrow> Q n s path (''.'' # es) v a t"
    and "\<And>n s path e es v a t st. e \<noteq> ''..'' \<Longrightarrow> e \<noteq> ''.'' \<Longrightarrow> sys_lstat s (createPath path e) = Some st \<Longrightarrow>
           S_ISDIR (st_mode st) \<Longrightarrow> P n s (createPath path e) v a \<Longrightarrow>
           (\<And>out r v'. getDirectorySize n s (createPath path e) v a = Some (out, Inr (r, v')) \<Longrightarrow>
              Q n s path es v' a (t + scast r)) \<Longrightarrow> Q n s path (e # es) v a t"
    and "\<And>n s path e es v a t st. e \<noteq> ''..'' \<Longrightarrow> e \<noteq> ''.'' \<Longrightarrow> sys_lstat s (createPath path e) = Some st \<Longrightarrow>
           \<not> S_ISDIR (st_mode st) \<Longrightarrow> S_ISREG (st_mode st) \<Longrightarrow>
           (\<And>out r v'. getFileSize s st v = (out, Inr (r, v')) \<Longrightarrow>
              Q n s path es v' a (t + scast r)) \<Longrightarrow> Q n s path (e # es) v a t"
    and "\<And>n s path e es v a t st. e \<noteq> ''..'' \<Longrightarrow> e \<noteq> ''.'' \<Longrightarrow> sys_lstat s (createPath path e) = Some st \<Longrightarrow>
           \<not> S_ISDIR (st_mode st) \<Longrightarrow> \<not> S_ISREG (st_mode st) \<Longrightarrow>
           Q n s path es v a t \<Longrightarrow> Q n s path (e # es) v a t"
  shows "P n s path v a" and "Q n' s' path' es v' a' t"
proof (induction n s path v a and n' s' path' es v' a' t rule: getDirectorySize_readdir_loop.induct)
  case (1 s path visited all_files)
  show ?case by (rule assms(1))
next
  case (2 n s path visited all_files)
  show ?case by (rule assms(2)) (rule 2)
next
  case (3 n s path visited all_files tot)
  show ?case by (rule assms(3))
next
  case (4 n s path entry_name entries visited all_files tot)
  show ?case
  proof (cases "entry_name = ''..''")
    case True
    with 4 show ?thesis by (auto intro: assms(4))
  next
    case nd: False
    show ?thesis
    proof (cases "sys_lstat s (createPath path entry_name)")
      case None
      with nd show ?thesis by (rule assms(5))
    next
      case (Some st)
      show ?thesis
      proof (cases "entry_name = ''.''")
        case True
        with 4(2) [OF nd refl _ True] Some show ?thesis by (auto intro: assms(6))
      next
        case ns: False
        show ?thesis
        proof (cases "S_ISDIR (st_mode st)")
          case True
          show ?thesis
          proof (rule assms(7) [OF nd ns Some True])
            show "P n s (createPath path entry_name) visited all_files"
              by (rule 4(3) [OF nd refl Some ns True])
          next
            fix out r v'
            assume "getDirectorySize n s (createPath path entry_name) visited all_files = Some (out, Inr (r, v'))"
            then show "Q n s path entries v' all_files (tot + scast r)"
              by (intro 4(4) [OF nd refl Some ns True _ refl _ refl]) auto
          qed
        next
          case nodir: False
          show ?thesis
          proof (cases "S_ISREG (st_mode st)")
            case True
            show ?thesis
            proof (rule assms(8) [OF nd ns Some nodir True])
              fix out r v'
              assume "getFileSize s st visited = (out, Inr (r, v'))"
              then have "(out, Inr (r, v')) = getFileSize s st visited"
                by simp
              then show "Q n s path entries v' all_files (tot + scast r)"
                by (rule 4(5) [OF nd refl Some ns nodir True _ refl refl])
            qed
          next
            case False
            with 4(6) [OF nd refl Some ns nodir] show ?thesis
              by (auto intro: assms(9) [OF nd ns Some nodir])
          qed
        qed
      qed
    qed
  qed
qed


text \<open>The loop body, one equation per kind of entry.\<close>

lemma loop_dotdot:
  "readdir_loop n s path (''..'' # es) v a t = readdir_loop n s path es v a t"
  by simp

lemma loop_no_stat:
  "e \<noteq> ''..'' \<Longrightarrow> sys_lstat s (createPath path e) = None \<Longrightarrow>
   readdir_loop n s path (e # es) v a t = Some ([], Inl Undefined)"
  by simp

lemma loop_dot:
  "sys_lstat s (createPath path ''.'') = Some st \<Longrightarrow>
   readdir_loop n s path (''.'' # es) v a t =
     readdir_loop n s path es v a (t + blocks_div_2 (st_blocks st))"
  by simp

lemma loop_subdir:
  "e \<noteq> ''..'' \<Longrightarrow> e \<noteq> ''.'' \<Longrightarrow> sys_lstat s (createPath path e) = Some st \<Longrightarrow>
   S_ISDIR (st_mode st) \<Longrightarrow>
   readdir_loop n s path (e # es) v a t =
     (case getDirectorySize n s (createPath path e) v a of
        None \<Rightarrow> None
      | Some (out, Inl err) \<Rightarrow> Some (out, Inl err)
      | Some (out, Inr (r, v')) \<Rightarrow>
          printed_before (out @ [Report (scast r) (createPath path e)])
            (readdir_loop n s path es v' a (t + scast r)))"
  by (simp add: printSize_def Let_def split: option.splits sum.splits prod.splits)

lemma loop_regular:
  "e \<noteq> ''..'' \<Longrightarrow> e \<noteq> ''.'' \<Longrightarrow> sys_lstat s (createPath path e) = Some st \<Longrightarrow>
   \<not> S_ISDIR (st_mode st) \<Longrightarrow> S_ISREG (st_mode st) \<Longrightarrow>
   readdir_loop n s path (e # es) v a t =
     (case getFileSize s st v of
        (out, Inl err) \<Rightarrow> Some (out, Inl err)
      | (out, Inr (r, v')) \<Rightarrow>
          printed_before (out @ (if a = TRUE then [Report (scast r) (createPath path e)] else []))
            (readdir_loop n s path es v' a (t + scast r)))"
  by (simp add: printSize_def Let_def split: option.splits sum.splits prod.splits)

lemma loop_other:
  "e \<noteq> ''..'' \<Longrightarrow> e \<noteq> ''.'' \<Longrightarrow> sys_lstat s (createPath path e) = Some st \<Longrightarrow>
   \<not> S_ISDIR (st_mode st) \<Longrightarrow> \<not> S_ISREG (st_mode st) \<Longrightarrow>
   readdir_loop n s path (e # es) v a t = readdir_loop n s path es v a t"
  by simp

declare readdir_loop.simps(2) [simp del]


lemma printed_before_Some:
  "printed_before out r = Some (out', x) \<longleftrightarrow> (\<exists>o2. r = Some (o2, x) \<and> out' = out @ o2)"
  by (cases r) (auto simp: printed_before_def)

lemma printed_before_None [simp]:
  "printed_before out r = None \<longleftrightarrow> r = None"
  by (simp add: printed_before_def)


section \<open>Facts about the inode array\<close>

lemma isInodeVisited_from_eq:
  "0 \<le> i \<Longrightarrow> num v \<le> int (length (arr v)) \<Longrightarrow>
   isInodeVisited_from v ino i = Inr (if ino \<in> set (drop (nat i) (recorded v)) then TRUE else FALSE)"
proof (induction v ino i rule: isInodeVisited_from.induct)
  case (1 visited inode i)
  show ?case
  proof (cases "i < num visited")
    case False
    then show ?thesis by (simp add: recorded_def)
  next
    case True
    with "1.prems" have len: "nat i < length (recorded visited)"
      by (simp add: recorded_def)
    have nth: "recorded visited ! nat i = arr visited ! nat i"
      using True "1.prems" by (simp add: recorded_def)
    have split: "drop (nat i) (recorded visited) = arr visited ! nat i # drop (nat (i + 1)) (recorded visited)"
      using Cons_nth_drop_Suc [OF len] nth "1.prems" by (simp add: nat_add_distrib)
    show ?thesis
    proof (cases "inode = arr visited ! nat i")
      case True
      with \<open>i < num visited\<close> "1.prems" split show ?thesis by simp
    next
      case False
      with \<open>i < num visited\<close> "1.prems" have "isInodeVisited_from visited inode i = isInodeVisited_from visited inode (i + 1)"
        by simp
      also have "\<dots> = Inr (if inode \<in> set (drop (nat (i + 1)) (recorded visited)) then TRUE else FALSE)"
        using "1.IH" \<open>i < num visited\<close> "1.prems" False by simp
      finally show ?thesis using split False by simp
    qed
  qed
qed

lemma isInodeVisited_eq:
  "visited_ok v \<Longrightarrow> isInodeVisited v ino = Inr (if ino \<in> set (recorded v) then TRUE else FALSE)"
  using isInodeVisited_from_eq [of 0 v ino] by (simp add: isInodeVisited_def visited_ok_def)

lemma unat_cap_bytes:
  assumes "0 \<le> k" "k \<le> INT_MAX"
  shows "unat (word_of_int k * 8 :: 64 word) = nat k * 8"
proof -
  have eq: "(word_of_int k * 8 :: 64 word) = word_of_int (k * 8)"
    by simp
  have "k * 8 < 2 ^ 64"
    using assms by (simp add: INT_MAX_def)
  with assms have "take_bit LENGTH(64) (k * 8) = k * 8"
    by (intro take_bit_int_eq_self) simp_all
  then have "uint (word_of_int (k * 8) :: 64 word) = k * 8"
    by (simp only: uint_word_of_int_eq)
  then have u: "unat (word_of_int (k * 8) :: 64 word) = nat (k * 8)"
    by (simp only: unat_eq_nat_uint)
  have "nat (k * 8) = nat k * 8"
    using assms by (simp add: nat_mult_distrib)
  with u show ?thesis
    by (simp only: eq)
qed

lemma realloc_cap:
  assumes "0 \<le> c" "c \<le> INT_MAX"
  shows "realloc s xs (word_of_int c * 8) =
           (if sys_realloc_ok s (nat c * 8)
            then Some (take (nat c) xs @ replicate (nat c - length xs) 0) else None)"
  unfolding realloc_def unat_cap_bytes [OF assms] by simp

lemma addInode_eq:
  assumes ok: "visited_ok v"
  shows "addInode s v ino =
     (if num v + 1 = cap v
      then (if INT_MAX < cap v * 2 then ([], Inl Undefined)
            else if sys_realloc_ok s (nat (cap v * 2) * 8)
            then ([], Inr \<lparr>num = num v + 1, cap = cap v * 2,
                            arr = (arr v)[nat (num v) := ino] @ replicate (nat (cap v)) 0\<rparr>)
            else ([Message ''addInode(): error reallocing''], Inl (Exit 1)))
      else ([], Inr (v\<lparr>arr := (arr v)[nat (num v) := ino], num := num v + 1\<rparr>)))"
proof (cases "num v + 1 = cap v")
  case False
  with ok show ?thesis
    by (simp add: addInode_def visited_ok_def Let_def)
next
  case True
  show ?thesis
  proof (cases "INT_MAX < cap v * 2")
    case over: True
    with ok True show ?thesis
      by (simp add: addInode_def visited_ok_def Let_def)
  next
    case False
    with ok have c: "0 \<le> cap v * 2" "cap v * 2 \<le> INT_MAX"
      by (simp_all add: visited_ok_def)
    have len: "length (arr v) = nat (cap v)"
      using ok by (simp add: visited_ok_def)
    have "nat (cap v * 2) = nat (cap v) + nat (cap v)"
      using ok by (simp add: visited_ok_def nat_mult_distrib)
    with len have grow: "take (nat (cap v * 2)) ((arr v)[nat (num v) := ino])
        @ replicate (nat (cap v * 2) - length ((arr v)[nat (num v) := ino])) 0
        = (arr v)[nat (num v) := ino] @ replicate (nat (cap v)) 0"
      by simp
    from ok True False c show ?thesis
      unfolding addInode_def Let_def
      by (simp add: visited_ok_def realloc_cap [OF c] grow INT_MIN_def del: of_int_mult)
  qed
qed

lemma addInode_ok:
  assumes ok: "visited_ok v" and res: "addInode s v ino = (out, Inr v')"
  shows "visited_ok v' \<and> recorded v' = recorded v @ [ino] \<and> out = []
         \<and> cap v' = (if num v + 1 = cap v then 2 * cap v else cap v)"
proof -
  let ?A = "(arr v)[nat (num v) := ino]"
  from ok have n: "nat (num v) < length (arr v)" "0 \<le> num v" "length ?A = nat (cap v)"
    by (auto simp: visited_ok_def)
  from n have "take (nat (num v + 1)) ?A = take (nat (num v)) (arr v) @ [ino]"
    by (simp add: nat_add_distrib take_Suc_conv_app_nth)
  moreover from ok n have "nat (num v + 1) \<le> length ?A"
    by (auto simp: visited_ok_def)
  ultimately have rec: "take (nat (num v + 1)) (?A @ R) = recorded v @ [ino]" for R
    by (simp add: recorded_def)
  show ?thesis
  proof (cases "num v + 1 = cap v")
    case False
    with res have v': "v' = v\<lparr>arr := ?A, num := num v + 1\<rparr>" and out: "out = []"
      unfolding addInode_eq [OF ok] by simp_all
    have "recorded v' = take (nat (num v + 1)) (?A @ [])"
      by (simp add: v' recorded_def)
    then have "recorded v' = recorded v @ [ino]"
      by (simp only: rec)
    moreover from ok False have "visited_ok v'"
      by (simp add: v' visited_ok_def)
    ultimately show ?thesis
      using False out by (simp add: v')
  next
    case True
    with res have v': "v' = \<lparr>num = num v + 1, cap = cap v * 2,
                            arr = ?A @ replicate (nat (cap v)) 0\<rparr>"
      and out: "out = []" and dbl: "cap v * 2 \<le> INT_MAX"
      unfolding addInode_eq [OF ok] by (simp_all split: if_splits)
    have "recorded v' = take (nat (num v + 1)) (?A @ replicate (nat (cap v)) 0)"
      by (simp add: v' recorded_def)
    then have "recorded v' = recorded v @ [ino]"
      by (simp only: rec)
    moreover from ok True dbl n have "visited_ok v'"
      by (simp add: v' visited_ok_def nat_mult_distrib)
    ultimately show ?thesis
      using True out by (simp add: v')
  qed
qed

lemma getFileSize_ok:
  assumes ok: "visited_ok v" and res: "getFileSize s st v = (out, Inr (r, v'))"
  shows "visited_ok v' \<and> out = [] \<and>
         (if 1 < st_nlink st
          then (if st_ino st \<in> set (recorded v) then r = 0 \<and> v' = v
                else r = ucast (blocks_div_2 (st_blocks st)) \<and> recorded v' = recorded v @ [st_ino st])
          else r = ucast (blocks_div_2 (st_blocks st)) \<and> v' = v)"
  using res ok addInode_ok [OF ok, of s "st_ino st"]
  by (auto simp: getFileSize_def isInodeVisited_eq [OF ok] TRUE_def FALSE_def split: if_splits prod.splits sum.splits)



lemma grows_to_refl: "visited_ok v \<Longrightarrow> grows_to v v"
  by (simp add: grows_to_def)

lemma grows_to_trans: "grows_to v v' \<Longrightarrow> grows_to v' v'' \<Longrightarrow> grows_to v v''"
  by (auto simp: grows_to_def)

lemma getFileSize_grows:
  assumes "visited_ok v" "getFileSize s st v = (out, Inr (r, v'))"
  shows "grows_to v v'"
  using getFileSize_ok [OF assms] assms(1)
  by (auto simp: grows_to_def split: if_splits)

lemma walk_grows:
  "visited_ok v \<Longrightarrow> getDirectorySize n s path v a = Some (out, Inr (r, v')) \<Longrightarrow> grows_to v v'"
  "visited_ok v \<Longrightarrow> readdir_loop n s path es v a tot = Some (out, Inr (r, v')) \<Longrightarrow> grows_to v v'"
proof (induction n s path v a and n s path es v a tot arbitrary: out r v' and out r v'
       rule: walk_induct)
  case (no_fuel s path v a)
  then show ?case by simp
next
  case (open_dir n s path v a)
  then show ?case by (auto split: option.splits)
next
  case (all_read n s path v a t)
  then show ?case by (simp add: grows_to_refl)
next
  case (dotdot n s path es v a t)
  then show ?case by (simp add: loop_dotdot)
next
  case (no_stat n s path e es v a t)
  then show ?case by (simp add: loop_no_stat)
next
  case (dot n s path es v a t st)
  then show ?case by (simp add: loop_dot)
next
  case (subdir n s path e es v a t st)
  from subdir.prems(2) obtain o1 r1 v1 o2 where
    sub: "getDirectorySize n s (createPath path e) v a = Some (o1, Inr (r1, v1))"
    and rest: "readdir_loop n s path es v1 a (t + scast r1) = Some (o2, Inr (r, v'))"
    unfolding loop_subdir [OF subdir.hyps]
    by (auto simp: printed_before_Some split: option.splits sum.splits prod.splits)
  from subdir.IH(1) [OF subdir.prems(1) sub] have g1: "grows_to v v1" .
  then have "visited_ok v1" by (simp add: grows_to_def)
  from subdir.IH(2) [OF sub this rest] g1 show ?case
    by (blast intro: grows_to_trans)
next
  case (regular n s path e es v a t st)
  from regular.prems(2) obtain o1 r1 v1 o2 where
    sub: "getFileSize s st v = (o1, Inr (r1, v1))"
    and rest: "readdir_loop n s path es v1 a (t + scast r1) = Some (o2, Inr (r, v'))"
    unfolding loop_regular [OF regular.hyps]
    by (auto simp: printed_before_Some split: option.splits sum.splits prod.splits)
  from getFileSize_grows [OF regular.prems(1) sub] have g1: "grows_to v v1" .
  then have "visited_ok v1" by (simp add: grows_to_def)
  from regular.IH [OF sub this rest] g1 show ?case
    by (blast intro: grows_to_trans)
next
  case (other n s path e es v a t st)
  then show ?case by (simp add: loop_other)
qed


section \<open>What a walk prints\<close>

lemma snd_printed_before [simp]:
  "map_option snd (printed_before out r) = map_option snd r"
  by (cases r) (auto simp: printed_before_def)

lemma loop_subdir_cases [consumes 5, case_names failed returned]:
  assumes "e \<noteq> ''..''" "e \<noteq> ''.''" "sys_lstat s (createPath path e) = Some st" "S_ISDIR (st_mode st)"
    and "readdir_loop n s path (e # es) v a t = Some (out, res)"
  obtains o1 err where "getDirectorySize n s (createPath path e) v a = Some (o1, Inl err)"
      "out = o1" "res = Inl err"
    | o1 r v1 o2 where "getDirectorySize n s (createPath path e) v a = Some (o1, Inr (r, v1))"
      "readdir_loop n s path es v1 a (t + scast r) = Some (o2, res)"
      "out = o1 @ Report (scast r) (createPath path e) # o2"
  using assms(5) unfolding loop_subdir [OF assms(1-4)]
  by (auto simp: printed_before_Some split: option.splits sum.splits prod.splits)

lemma loop_regular_cases [consumes 6, case_names failed returned]:
  assumes "e \<noteq> ''..''" "e \<noteq> ''.''" "sys_lstat s (createPath path e) = Some st"
    "\<not> S_ISDIR (st_mode st)" "S_ISREG (st_mode st)"
    and "readdir_loop n s path (e # es) v a t = Some (out, res)"
  obtains o1 err where "getFileSize s st v = (o1, Inl err)" "out = o1" "res = Inl err"
    | o1 r v1 o2 where "getFileSize s st v = (o1, Inr (r, v1))"
      "readdir_loop n s path es v1 a (t + scast r) = Some (o2, res)"
      "out = o1 @ (if a = TRUE then [Report (scast r) (createPath path e)] else []) @ o2"
  using assms(6) unfolding loop_regular [OF assms(1-5)]
  by (auto simp: printed_before_Some split: option.splits sum.splits prod.splits)

lemma addInode_no_report: "addInode s v ino = (out, x) \<Longrightarrow> Report sz q \<notin> set out"
  by (auto simp: addInode_def Let_def split: if_splits option.splits)

lemma getFileSize_no_report: "getFileSize s st v = (out, x) \<Longrightarrow> Report sz q \<notin> set out"
  by (auto simp: getFileSize_def dest: addInode_no_report split: if_splits sum.splits prod.splits)

lemma under_nested: "lies_under (createPath path e) e' q \<Longrightarrow> lies_under path e q"
  by (auto simp: lies_under_def createPath_def prefix_def)

lemma under_self: "lies_under path e (createPath path e)"
  by (simp add: lies_under_def)

lemma reports_under:
  "getDirectorySize n s path v a = Some (out, res) \<Longrightarrow> Report sz q \<in> set out \<Longrightarrow>
     \<exists>es e. sys_readdir s path = Some es \<and> e \<in> set es \<and> e \<noteq> ''.'' \<and> e \<noteq> ''..'' \<and> lies_under path e q"
  "readdir_loop n s path es v a t = Some (out, res) \<Longrightarrow> Report sz q \<in> set out \<Longrightarrow>
     \<exists>e \<in> set es. e \<noteq> ''.'' \<and> e \<noteq> ''..'' \<and> lies_under path e q"
proof (induction n s path v a and n s path es v a t arbitrary: out res and out res rule: walk_induct)
  case (no_fuel s path v a)
  then show ?case by simp
next
  case (open_dir n s path v a)
  from open_dir.prems obtain es where "sys_readdir s path = Some es"
    "readdir_loop n s path es v a 0 = Some (out, res)"
    by (auto split: option.splits)
  with open_dir.IH open_dir.prems(2) show ?case
    by blast
next
  case (all_read n s path v a t)
  then show ?case by simp
next
  case (dotdot n s path es v a t)
  from dotdot.IH [OF dotdot.prems [unfolded loop_dotdot]] show ?case
    by (simp only: list.set) blast
next
  case (no_stat n s path e es v a t)
  then show ?case by (simp add: loop_no_stat)
next
  case (dot n s path es v a t st)
  from dot.IH [OF dot.prems [unfolded loop_dot [OF dot.hyps]]] show ?case
    by (simp only: list.set) blast
next
  case (subdir n s path e es v a t st)
  have here: "lies_under path e q \<Longrightarrow> ?case"
    using subdir.hyps(1,2) by (simp only: list.set) blast
  have nested: "?case" if "getDirectorySize n s (createPath path e) v a = Some (o1, x)"
    "Report sz q \<in> set o1" for o1 x
  proof -
    from subdir.IH(1) [OF that] obtain e' where "lies_under (createPath path e) e' q"
      by (elim exE conjE)
    then have "lies_under path e q"
      by (rule under_nested)
    then show ?thesis
      by (rule here)
  qed
  from subdir.hyps subdir.prems(1) show ?case
  proof (cases rule: loop_subdir_cases)
    case (failed o1 err)
    with nested subdir.prems(2) show ?thesis
      by simp
  next
    case (returned o1 r v1 o2)
    from subdir.prems(2) returned(3)
    consider "Report sz q \<in> set o1" | "q = createPath path e" | "Report sz q \<in> set o2"
      by auto
    then show ?thesis
    proof cases
      case 1
      with nested returned(1) show ?thesis
        by simp
    next
      case 2
      with here under_self show ?thesis
        by simp
    next
      case 3
      from subdir.IH(2) [OF returned(1,2) 3] show ?thesis
        by (simp only: list.set) blast
    qed
  qed
next
  case (regular n s path e es v a t st)
  have here: "lies_under path e q \<Longrightarrow> ?case"
    using regular.hyps(1,2) by (simp only: list.set) blast
  from regular.hyps regular.prems(1) show ?case
  proof (cases rule: loop_regular_cases)
    case (failed o1 err)
    with regular.prems(2) getFileSize_no_report [OF failed(1)] show ?thesis
      by simp
  next
    case (returned o1 r v1 o2)
    from regular.prems(2) returned(3) getFileSize_no_report [OF returned(1)]
    consider "q = createPath path e" | "Report sz q \<in> set o2"
      by (auto split: if_splits)
    then show ?thesis
    proof cases
      case 1
      with here under_self show ?thesis
        by simp
    next
      case 2
      from regular.IH [OF returned(1,2) 2] show ?thesis
        by (simp only: list.set) blast
    qed
  qed
next
  case (other n s path e es v a t st)
  from other.IH [OF other.prems [unfolded loop_other [OF other.hyps]]] show ?case
    by (simp only: list.set) blast
qed

lemma reports_classified:
  "getDirectorySize n s path v a = Some (out, res) \<Longrightarrow> Report sz q \<in> set out \<Longrightarrow>
     \<exists>st. sys_lstat s q = Some st \<and>
       (S_ISDIR (st_mode st) \<or> \<not> S_ISDIR (st_mode st) \<and> S_ISREG (st_mode st) \<and> a = TRUE)"
  "readdir_loop n s path es v a t = Some (out, res) \<Longrightarrow> Report sz q \<in> set out \<Longrightarrow>
     \<exists>st. sys_lstat s q = Some st \<and>
       (S_ISDIR (st_mode st) \<or> \<not> S_ISDIR (st_mode st) \<and> S_ISREG (st_mode st) \<and> a = TRUE)"
proof (induction n s path v a and n s path es v a t arbitrary: out res and out res rule: walk_induct)
  case (no_fuel s path v a)
  then show ?case by simp
next
  case (open_dir n s path v a)
  then show ?case by (auto split: option.splits)
next
  case (all_read n s path v a t)
  then show ?case by simp
next
  case (dotdot n s path es v a t)
  then show ?case by (auto simp: loop_dotdot)
next
  case (no_stat n s path e es v a t)
  then show ?case by (simp add: loop_no_stat)
next
  case (dot n s path es v a t st)
  then show ?case by (auto simp: loop_dot)
next
  case (subdir n s path e es v a t st)
  from subdir.hyps subdir.prems(1) show ?case
  proof (cases rule: loop_subdir_cases)
    case (failed o1 err)
    with subdir.IH(1) [OF failed(1)] subdir.prems(2) show ?thesis
      by auto
  next
    case (returned o1 r v1 o2)
    from subdir.prems(2) returned(3)
    consider "Report sz q \<in> set o1" | "q = createPath path e" | "Report sz q \<in> set o2"
      by auto
    then show ?thesis
    proof cases
      case 1
      with subdir.IH(1) [OF returned(1)] show ?thesis
        by auto
    next
      case 2
      with subdir.hyps show ?thesis
        by auto
    next
      case 3
      with subdir.IH(2) [OF returned(1,2)] show ?thesis
        by auto
    qed
  qed
next
  case (regular n s path e es v a t st)
  from regular.hyps regular.prems(1) show ?case
  proof (cases rule: loop_regular_cases)
    case (failed o1 err)
    with regular.prems(2) getFileSize_no_report show ?thesis
      by blast
  next
    case (returned o1 r v1 o2)
    from regular.prems(2) returned(3) getFileSize_no_report [OF returned(1)]
    consider "q = createPath path e" "a = TRUE" | "Report sz q \<in> set o2"
      by (auto split: if_splits)
    then show ?thesis
    proof cases
      case 1
      with regular.hyps show ?thesis
        by auto
    next
      case 2
      with regular.IH [OF returned(1,2)] show ?thesis
        by auto
    qed
  qed
next
  case (other n s path e es v a t st)
  then show ?case by (auto simp: loop_other)
qed

section \<open>The flag and the computation\<close>

lemma flag_independent:
  "map_option snd (getDirectorySize n s path v a) = map_option snd (getDirectorySize n s path v b)"
  "map_option snd (readdir_loop n s path es v a t) = map_option snd (readdir_loop n s path es v b t)"
proof (induction n s path v a and n s path es v a t rule: walk_induct)
  case (no_fuel s path v a)
  show ?case by simp
next
  case (open_dir n s path v a)
  then show ?case by (simp split: option.splits)
next
  case (all_read n s path v a t)
  show ?case by simp
next
  case (dotdot n s path es v a t)
  then show ?case by (simp add: loop_dotdot)
next
  case (no_stat n s path e es v a t)
  then show ?case by (simp add: loop_no_stat)
next
  case (dot n s path es v a t st)
  then show ?case by (simp add: loop_dot)
next
  case (subdir n s path e es v a t st)
  show ?case
  proof (cases "getDirectorySize n s (createPath path e) v a")
    case None
    with subdir.IH(1) have "getDirectorySize n s (createPath path e) v b = None"
      by simp
    with None show ?thesis
      by (simp add: loop_subdir [OF subdir.hyps])
  next
    case (Some x)
    obtain o1 res where x: "x = (o1, res)" by (cases x)
    with Some subdir.IH(1) obtain o2 where b: "getDirectorySize n s (createPath path e) v b = Some (o2, res)"
      by (cases "getDirectorySize n s (createPath path e) v b") auto
    show ?thesis
    proof (cases res)
      case (Inl err)
      with Some x b show ?thesis
        by (simp add: loop_subdir [OF subdir.hyps])
    next
      case (Inr y)
      obtain r v1 where "y = (r, v1)" by (cases y)
      with Some x b Inr subdir.IH(2) [of o1 r v1] show ?thesis
        by (simp add: loop_subdir [OF subdir.hyps])
    qed
  qed
next
  case (regular n s path e es v a t st)
  obtain o1 res where g: "getFileSize s st v = (o1, res)" by (cases "getFileSize s st v")
  show ?case
  proof (cases res)
    case (Inl err)
    with g show ?thesis
      by (simp add: loop_regular [OF regular.hyps])
  next
    case (Inr y)
    obtain r v1 where "y = (r, v1)" by (cases y)
    with g Inr regular.IH [of o1 r v1] show ?thesis
      by (simp add: loop_regular [OF regular.hyps])
  qed
next
  case (other n s path e es v a t st)
  then show ?case by (simp add: loop_other)
qed

lemma under_entry_name:
  assumes "lies_under path e (createPath path d)" "CHR ''/'' \<notin> set d"
  shows "e = d"
proof -
  from assms(1) consider "createPath path d = createPath path e"
    | "prefix (createPath path e @ ''/'') (createPath path d)"
    by (auto simp: lies_under_def)
  then show ?thesis
  proof cases
    case 1
    then show ?thesis by (simp add: createPath_def)
  next
    case 2
    then have "prefix (e @ ''/'') d"
      by (simp add: createPath_def)
    then have "set (e @ ''/'') \<subseteq> set d"
      by (rule set_mono_prefix)
    with assms(2) show ?thesis by simp
  qed
qed

lemma S_ISLNK_other: "S_ISLNK m \<Longrightarrow> \<not> S_ISDIR m \<and> \<not> S_ISREG m"
  by (auto simp: S_ISLNK_def S_ISDIR_def S_ISREG_def S_IFLNK_def S_IFDIR_def S_IFREG_def)

lemma realloc_sys_stat: "realloc (s\<lparr>sys_stat := f\<rparr>) xs b = realloc s xs b"
  by (simp add: realloc_def)

lemma addInode_sys_stat: "addInode (s\<lparr>sys_stat := f\<rparr>) v ino = addInode s v ino"
  unfolding addInode_def realloc_sys_stat by (rule refl)

lemma getFileSize_sys_stat [simp]: "getFileSize (s\<lparr>sys_stat := f\<rparr>) st v = getFileSize s st v"
  unfolding getFileSize_def addInode_sys_stat by (rule refl)

lemma walk_sys_stat:
  "getDirectorySize n (s\<lparr>sys_stat := f\<rparr>) path v a = getDirectorySize n s path v a"
  "readdir_loop n (s\<lparr>sys_stat := f\<rparr>) path es v a t = readdir_loop n s path es v a t"
proof (induction n s path v a and n s path es v a t rule: walk_induct)
  case (no_fuel s path v a)
  show ?case by simp
next
  case (open_dir n s path v a)
  then show ?case by (simp split: option.splits)
next
  case (all_read n s path v a t)
  show ?case by simp
next
  case (dotdot n s path es v a t)
  then show ?case by (simp add: loop_dotdot)
next
  case (no_stat n s path e es v a t)
  then show ?case by (simp add: loop_no_stat)
next
  case (dot n s path es v a t st)
  then show ?case by (simp add: loop_dot)
next
  case (subdir n s path e es v a t st)
  then show ?case by (simp add: loop_subdir split: option.splits sum.splits prod.splits)
next
  case (regular n s path e es v a t st)
  then show ?case by (simp add: loop_regular split: option.splits sum.splits prod.splits)
next
  case (other n s path e es v a t st)
  then show ?case by (simp add: loop_other)
qed

lemma regular_entries_reported:
  "True"
  "readdir_loop n s path es v a t = Some (out, Inr res) \<Longrightarrow> a = TRUE \<Longrightarrow> e \<in> set es \<Longrightarrow>
   e \<noteq> ''..'' \<Longrightarrow> e \<noteq> ''.'' \<Longrightarrow> sys_lstat s (createPath path e) = Some st \<Longrightarrow>
   \<not> S_ISDIR (st_mode st) \<Longrightarrow> S_ISREG (st_mode st) \<Longrightarrow>
   \<exists>o1 r v1 v2. getFileSize s st v1 = (o1, Inr (r, v2)) \<and> Report (scast r) (createPath path e) \<in> set out"
proof (induction n s path v a and n s path es v a t arbitrary: and out rule: walk_induct)
  case (all_read n s path v a t)
  then show ?case by simp
next
  case (dotdot n s path es v a t)
  from dotdot.prems have "readdir_loop n s path es v a t = Some (out, Inr res)" "e \<in> set es"
    by (simp_all add: loop_dotdot)
  from dotdot.IH [OF this(1) dotdot.prems(2) this(2) dotdot.prems(4-)] show ?case .
next
  case (no_stat n s path e' es v a t)
  then show ?case by (simp add: loop_no_stat)
next
  case (dot n s path es v a t st')
  from dot.prems dot.hyps have "readdir_loop n s path es v a (t + blocks_div_2 (st_blocks st')) = Some (out, Inr res)"
    "e \<in> set es"
    by (simp_all add: loop_dot)
  from dot.IH [OF this(1) dot.prems(2) this(2) dot.prems(4-)] show ?case .
next
  case (subdir n s path e' es v a t st')
  from subdir.hyps subdir.prems(6-) have "e \<noteq> e'"
    by auto
  with subdir.prems(3) have mem: "e \<in> set es"
    by simp
  from subdir.hyps subdir.prems(1) show ?case
  proof (cases rule: loop_subdir_cases)
    case (failed o1 err)
    then show ?thesis by simp
  next
    case (returned o1 r v1 o2)
    from subdir.IH(2) [OF returned(1,2) subdir.prems(2) mem subdir.prems(4-)] returned(3)
    show ?thesis by auto
  qed
next
  case (regular n s path e' es v a t st')
  from regular.hyps regular.prems(1) show ?case
  proof (cases rule: loop_regular_cases)
    case (failed o1 err)
    then show ?thesis by simp
  next
    case (returned o1 r v1 o2)
    show ?thesis
    proof (cases "e = e'")
      case True
      with regular.hyps(3) regular.prems(6) have "st' = st"
        by simp
      with returned(1,3) True regular.prems(2) show ?thesis
        by auto
    next
      case False
      with regular.prems(3) have mem: "e \<in> set es"
        by simp
      from regular.IH [OF returned(1,2) regular.prems(2) mem regular.prems(4-)] returned(3)
      show ?thesis by auto
    qed
  qed
next
  case (other n s path e' es v a t st')
  from other.hyps other.prems(6-) have "e \<noteq> e'"
    by auto
  with other.prems(3) have mem: "e \<in> set es"
    by simp
  from other.prems(1) other.hyps have "readdir_loop n s path es v a t = Some (out, Inr res)"
    by (simp add: loop_other)
  from other.IH [OF this other.prems(2) mem other.prems(4-)] show ?case .
qed simp_all

section \<open>Depth bounds\<close>

lemma fuel_enough:
  "finite_tree s h \<Longrightarrow> h path < n \<Longrightarrow> getDirectorySize n s path v a \<noteq> None"
  "finite_tree s h \<Longrightarrow> h path \<le> n \<Longrightarrow> sys_readdir s path = Some ls \<Longrightarrow> set es \<subseteq> set ls \<Longrightarrow>
     readdir_loop n s path es v a t \<noteq> None"
proof (induction n s path v a and n s path es v a t arbitrary: and ls rule: walk_induct)
  case (no_fuel s path v a)
  then show ?case by simp
next
  case (open_dir n s path v a)
  show ?case
  proof (cases "sys_readdir s path")
    case None
    then show ?thesis by simp
  next
    case (Some es)
    with open_dir.IH [OF Some open_dir.prems(1) _ Some] open_dir.prems(2) show ?thesis
      by simp
  qed
next
  case (all_read n s path v a t)
  show ?case by simp
next
  case (dotdot n s path es v a t)
  then show ?case by (simp add: loop_dotdot)
next
  case (no_stat n s path e es v a t)
  then show ?case by (simp add: loop_no_stat)
next
  case (dot n s path es v a t st)
  then show ?case by (simp add: loop_dot)
next
  case (subdir n s path e es v a t st)
  from subdir.prems have "e \<in> set ls" "set es \<subseteq> set ls"
    by simp_all
  with subdir.prems(1,3) subdir.hyps have "h (createPath path e) < h path"
    by (simp add: finite_tree_def)
  with subdir.prems(2) have "h (createPath path e) < n"
    by simp
  from subdir.IH(1) [OF subdir.prems(1) this]
  obtain x where x: "getDirectorySize n s (createPath path e) v a = Some x"
    by auto
  obtain o1 res where x': "x = (o1, res)" by (cases x)
  show ?case
  proof (cases res)
    case (Inl err)
    with x x' show ?thesis
      by (simp add: loop_subdir [OF subdir.hyps])
  next
    case (Inr y)
    obtain r v1 where "y = (r, v1)" by (cases y)
    with x x' Inr have sub: "getDirectorySize n s (createPath path e) v a = Some (o1, Inr (r, v1))"
      by simp
    from subdir.IH(2) [OF sub subdir.prems(1,2,3) \<open>set es \<subseteq> set ls\<close>] sub show ?thesis
      by (simp add: loop_subdir [OF subdir.hyps])
  qed
next
  case (regular n s path e es v a t st)
  from regular.prems have sub: "set es \<subseteq> set ls"
    by simp
  obtain o1 res where g: "getFileSize s st v = (o1, res)" by (cases "getFileSize s st v")
  show ?case
  proof (cases res)
    case (Inl err)
    with g show ?thesis
      by (simp add: loop_regular [OF regular.hyps])
  next
    case (Inr y)
    obtain r v1 where "y = (r, v1)" by (cases y)
    with g Inr have g': "getFileSize s st v = (o1, Inr (r, v1))"
      by simp
    from regular.IH [OF g' regular.prems(1,2,3) sub] g' show ?thesis
      by (simp add: loop_regular [OF regular.hyps])
  qed
next
  case (other n s path e es v a t st)
  then show ?case by (simp add: loop_other)
qed

lemma fuel_mono:
  "getDirectorySize n s path v a = Some x \<Longrightarrow> getDirectorySize (n + k) s path v a = Some x"
  "readdir_loop n s path es v a t = Some x \<Longrightarrow> readdir_loop (n + k) s path es v a t = Some x"
proof (induction n s path v a and n s path es v a t arbitrary: x and x rule: walk_induct)
  case (no_fuel s path v a)
  then show ?case by simp
next
  case (open_dir n s path v a)
  then show ?case by (auto split: option.splits)
next
  case (all_read n s path v a t)
  then show ?case by simp
next
  case (dotdot n s path es v a t)
  then show ?case by (simp add: loop_dotdot)
next
  case (no_stat n s path e es v a t)
  then show ?case by (simp add: loop_no_stat)
next
  case (dot n s path es v a t st)
  then show ?case by (simp add: loop_dot)
next
  case (subdir n s path e es v a t st)
  obtain out res where x: "x = (out, res)" by (cases x)
  from subdir.hyps subdir.prems [unfolded x] show ?case
  proof (cases rule: loop_subdir_cases)
    case (failed o1 err)
    with subdir.IH(1) [OF failed(1)] x show ?thesis
      by (simp add: loop_subdir [OF subdir.hyps])
  next
    case (returned o1 r v1 o2)
    with subdir.IH(1) [OF returned(1)] subdir.IH(2) [OF returned(1,2)] x show ?thesis
      by (simp add: loop_subdir [OF subdir.hyps] printed_before_def)
  qed
next
  case (regular n s path e es v a t st)
  obtain out res where x: "x = (out, res)" by (cases x)
  from regular.hyps regular.prems [unfolded x] show ?case
  proof (cases rule: loop_regular_cases)
    case (failed o1 err)
    with x show ?thesis
      by (simp add: loop_regular [OF regular.hyps])
  next
    case (returned o1 r v1 o2)
    with regular.IH [OF returned(1,2)] x show ?thesis
      by (simp add: loop_regular [OF regular.hyps] printed_before_def)
  qed
next
  case (other n s path e es v a t st)
  then show ?case by (simp add: loop_other)
qed

section \<open>Facts about the small file system\<close>

lemma split_path_nonempty: "split_path p \<noteq> []"
  by (induction p) (auto split: list.splits)

lemma split_path_append: "split_path (p @ CHR ''/'' # e) = split_path p @ split_path e"
proof (induction p)
  case Nil
  show ?case by simp
next
  case (Cons c p)
  obtain x xs where "split_path p = x # xs"
    using split_path_nonempty [of p] by (cases "split_path p") auto
  with Cons show ?case by simp
qed

lemma split_path_name: "CHR ''/'' \<notin> set e \<Longrightarrow> split_path e = [e]"
  by (induction e) auto

lemma resolve_append: "resolve st (xs @ ys) = resolve (resolve st xs) ys"
  by (induction xs arbitrary: st) auto

lemma canonical_createPath:
  "CHR ''/'' \<notin> set e \<Longrightarrow> canonical (createPath p e) = resolve (canonical p) [e]"
  by (simp add: canonical_def createPath_def split_path_append split_path_name resolve_append)

lemma demo_finite_tree: "finite_tree demo_sys demo_height"
proof -
  have "demo_height (createPath p e) < demo_height p"
    if "demo_readdir p = Some es" "e \<in> set es" "e \<noteq> ''.''" "e \<noteq> ''..''"
      "demo_lstat (createPath p e) = Some st" "S_ISDIR (st_mode st)" for p es e st
  proof -
    from that(1,2) have "CHR ''/'' \<notin> set e"
      by (auto simp: demo_readdir_def Let_def split: if_splits)
    then have c: "canonical (createPath p e) = resolve (canonical p) [e]"
      by (rule canonical_createPath)
    from that show ?thesis
      unfolding demo_readdir_def demo_lstat_def demo_height_def c Let_def
      by (auto simp: S_ISDIR_def S_IFMT_def S_IFDIR_def demo_link2_def demo_file_def demo_symlink_def
          split: if_splits)
  qed
  then show ?thesis
    by (simp add: finite_tree_def demo_sys_def)
qed

section \<open>The running total\<close>

lemma ucast_down_add: "(ucast (x + y :: 64 word) :: 32 word) = ucast x + ucast y"
proof -
  have down: "is_down (ucast :: 64 word \<Rightarrow> 32 word)"
    by (simp add: is_down)
  have "x + y = word_of_int (uint x + uint y)"
    by (simp only: of_int_add word_of_int_uint)
  then have "(ucast (x + y) :: 32 word) = word_of_int (uint x + uint y)"
    by (simp only: ucast_down_wi [OF down])
  also have "\<dots> = word_of_int (uint x) + word_of_int (uint y)"
    by (simp only: of_int_add)
  also have "\<dots> = ucast x + ucast y"
    by (simp only: ucast_eq)
  finally show ?thesis .
qed

lemma ucast_scast_int: "(ucast (scast r :: 64 word) :: 32 word) = r"
proof -
  have down: "is_down (ucast :: 64 word \<Rightarrow> 32 word)"
    by (simp add: is_down)
  have "(ucast (scast r :: 64 word) :: 32 word) = ucast (word_of_int (sint r) :: 64 word)"
    by (simp only: scast_eq)
  also have "\<dots> = word_of_int (sint r)"
    by (rule ucast_down_wi [OF down])
  also have "\<dots> = r"
    by simp
  finally show ?thesis .
qed

lemma sint_blocks_div_2: "sint (blocks_div_2 b) = sint b sdiv 2"
proof -
  have lo: "- (2 ^ 63) \<le> sint b" and hi: "sint b < 2 ^ 63"
    using sint_ge [of b] sint_lt [of b] by simp_all
  have "sint (word_of_int (sint b sdiv 2) :: 64 word) = signed_take_bit (LENGTH(64) - 1) (sint b sdiv 2)"
    by (rule sint_sbintrunc')
  also have "\<dots> = sint b sdiv 2"
  proof (intro signed_take_bit_int_eq_self)
    from lo hi show "- (2 ^ (LENGTH(64) - 1)) \<le> sint b sdiv 2"
      by (simp add: signed_divide_int_def sgn_if) arith
    from lo hi show "sint b sdiv 2 < 2 ^ (LENGTH(64) - 1)"
      by (simp add: signed_divide_int_def sgn_if) arith
  qed
  finally show ?thesis
    by (simp only: blocks_div_2_def)
qed

lemma ucast_down_sint: "(ucast (x :: 64 word) :: 32 word) = word_of_int (sint x)"
proof -
  have "is_down (ucast :: 64 word \<Rightarrow> 32 word)"
    by (simp add: is_down)
  then have "(ucast :: 64 word \<Rightarrow> 32 word) = scast"
    by (rule down_cast_same)
  then have "(ucast x :: 32 word) = scast x"
    by (rule fun_cong)
  then show ?thesis
    by (simp only: scast_eq)
qed

lemma ucast_allocation:
  "(ucast (blocks_div_2 (st_blocks st)) :: 32 word) = word_of_int (allocation_size st)"
  by (simp only: ucast_down_sint sint_blocks_div_2 allocation_size_def)

lemma sint_in_range:
  assumes "INT_MIN \<le> k" "k \<le> INT_MAX"
  shows "sint (word_of_int k :: 32 word) = k"
proof -
  have "sint (word_of_int k :: 32 word) = signed_take_bit (LENGTH(32) - 1) k"
    by (rule sint_sbintrunc')
  also from assms have "\<dots> = k"
    by (intro signed_take_bit_int_eq_self) (simp_all add: INT_MIN_def INT_MAX_def)
  finally show ?thesis .
qed

lemma loop_total:
  "True"
  "visited_ok v \<Longrightarrow> readdir_loop n s path es v a t = Some (out, Inr (tot, v')) \<Longrightarrow>
   tot = ucast t + word_of_int (int (count_list es ''.'') * own_size s path
                                + sum_list (fst (child_sizes n s path es v a))
                                + sum_list (snd (child_sizes n s path es v a)))"
proof (induction n s path v a and n s path es v a t arbitrary: and out rule: walk_induct)
  case (all_read n s path v a t)
  then show ?case by simp
next
  case (dotdot n s path es v a t)
  then show ?case by (simp add: loop_dotdot)
next
  case (no_stat n s path e es v a t)
  then show ?case by (simp add: loop_no_stat)
next
  case (dot n s path es v a t st)
  from dot.IH [OF dot.prems(1) dot.prems(2) [unfolded loop_dot [OF dot.hyps]]] dot.hyps
  show ?case
    by (simp add: own_size_def ucast_down_add ucast_allocation algebra_simps)
next
  case (subdir n s path e es v a t st)
  from subdir.hyps subdir.prems(2) show ?case
  proof (cases rule: loop_subdir_cases)
    case (failed o1 err)
    then show ?thesis by simp
  next
    case (returned o1 r v1 o2)
    from walk_grows(1) [OF subdir.prems(1) returned(1)] have "visited_ok v1"
      by (simp add: grows_to_def)
    from subdir.IH(2) [OF returned(1) this returned(2)] subdir.hyps returned(1)
    show ?thesis
      by (simp add: ucast_down_add ucast_scast_int algebra_simps)
  qed
next
  case (regular n s path e es v a t st)
  from regular.hyps regular.prems(2) show ?case
  proof (cases rule: loop_regular_cases)
    case (failed o1 err)
    then show ?thesis by simp
  next
    case (returned o1 r v1 o2)
    from getFileSize_ok [OF regular.prems(1) returned(1)]
    have ok1: "visited_ok v1"
      and r: "r = (if 1 < st_nlink st \<and> st_ino st \<in> set (recorded v) then 0
                   else word_of_int (allocation_size st))"
      by (auto simp: ucast_allocation split: if_splits)
    from regular.IH [OF returned(1) ok1 returned(2)] regular.hyps returned(1) r
    show ?thesis
      by (simp add: ucast_down_add ucast_scast_int algebra_simps)
  qed
next
  case (other n s path e es v a t st)
  then show ?case by (simp add: loop_other)
qed simp_all

lemma child_sizes_dots: "set es \<subseteq> {''.'', ''..''} \<Longrightarrow> child_sizes n s path es v a = ([], [])"
  by (induction es) auto

lemma loop_dots:
  "set es \<subseteq> {''.'', ''..''} \<Longrightarrow> readdir_loop n s path es v a t = Some (out, Inr (tot, v')) \<Longrightarrow>
   out = [] \<and> v' = v"
proof (induction es arbitrary: t)
  case Nil
  then show ?case by simp
next
  case (Cons e es)
  show ?case
  proof (cases "e = ''..''")
    case True
    with Cons show ?thesis by (simp add: loop_dotdot)
  next
    case False
    with Cons.prems have e: "e = ''.''" by simp
    with Cons.prems obtain st where "sys_lstat s (createPath path ''.'') = Some st"
      by (cases "sys_lstat s (createPath path ''.'')") (simp_all add: loop_no_stat)
    with Cons e show ?thesis by (simp add: loop_dot)
  qed
qed

section \<open>The order of the report lines\<close>

lemma report_paths_append [simp]: "report_paths (xs @ ys) = report_paths xs @ report_paths ys"
  by (induction xs rule: report_paths.induct) simp_all

lemma set_report_paths: "q \<in> set (report_paths out) \<longleftrightarrow> (\<exists>sz. Report sz q \<in> set out)"
  by (induction out rule: report_paths.induct) auto

lemma children_first_append:
  "children_first (xs @ ys) \<longleftrightarrow>
     children_first xs \<and> children_first ys \<and> (\<forall>p \<in> set xs. \<forall>q \<in> set ys. \<not> beneath q p)"
  by (induction xs) auto

lemma getFileSize_report_paths: "getFileSize s st v = (out, x) \<Longrightarrow> report_paths out = []"
proof -
  assume "getFileSize s st v = (out, x)"
  then have "\<And>q. q \<notin> set (report_paths out)"
    by (simp add: set_report_paths getFileSize_no_report)
  then show ?thesis
    by (cases "report_paths out") auto
qed

lemma takeWhile_until: "c \<notin> set e \<Longrightarrow> takeWhile (\<lambda>x. x \<noteq> c) (e @ c # z) = e"
  by (induction e) auto

lemma under_not_beneath_entry: "lies_under path e p \<Longrightarrow> \<not> beneath (createPath path e) p"
proof
  assume u: "lies_under path e p" and b: "beneath (createPath path e) p"
  from b have "length (p @ ''/'') \<le> length (createPath path e)"
    unfolding beneath_def by (rule prefix_length_le)
  moreover from u have "length (createPath path e) \<le> length p"
    by (auto simp: lies_under_def dest: prefix_length_le)
  ultimately show False by simp
qed

lemma under_distinct_entries:
  assumes p: "lies_under path e1 p" and q: "lies_under path e2 q"
    and ne: "e1 \<noteq> e2" and s1: "CHR ''/'' \<notin> set e1" and s2: "CHR ''/'' \<notin> set e2"
  shows "\<not> beneath q p"
proof
  assume "beneath q p"
  then have pq: "prefix (p @ ''/'') q"
    by (simp add: beneath_def)
  from p have "prefix (createPath path e1 @ ''/'') (p @ ''/'')"
    by (auto simp: lies_under_def)
  from this pq have "prefix (createPath path e1 @ ''/'') q"
    by (rule prefix_order.trans)
  then obtain z where z: "q = path @ ''/'' @ e1 @ ''/'' @ z"
    by (auto simp: prefix_def createPath_def)
  from q consider "q = createPath path e2" | "prefix (createPath path e2 @ ''/'') q"
    by (auto simp: lies_under_def)
  then show False
  proof cases
    case 1
    with z have "e2 = e1 @ ''/'' @ z"
      by (simp add: createPath_def)
    with s2 show False by simp
  next
    case 2
    then obtain y where "q = path @ ''/'' @ e2 @ ''/'' @ y"
      by (auto simp: prefix_def createPath_def)
    with z have eq: "e1 @ CHR ''/'' # z = e2 @ CHR ''/'' # y"
      by simp
    from s1 have "takeWhile (\<lambda>x. x \<noteq> CHR ''/'') (e1 @ CHR ''/'' # z) = e1"
      by (rule takeWhile_until)
    moreover from s2 have "takeWhile (\<lambda>x. x \<noteq> CHR ''/'') (e2 @ CHR ''/'' # y) = e2"
      by (rule takeWhile_until)
    ultimately show False using eq ne by simp
  qed
qed


lemma walk_children_first:
  "names_ok s \<Longrightarrow> getDirectorySize n s path v a = Some (out, res) \<Longrightarrow>
     children_first (report_paths out)"
  "names_ok s \<Longrightarrow> distinct es \<Longrightarrow> \<forall>e \<in> set es. CHR ''/'' \<notin> set e \<Longrightarrow>
     readdir_loop n s path es v a t = Some (out, res) \<Longrightarrow> children_first (report_paths out)"
proof (induction n s path v a and n s path es v a t arbitrary: out res and out res rule: walk_induct)
  case (no_fuel s path v a)
  then show ?case by simp
next
  case (open_dir n s path v a)
  show ?case
  proof (cases "sys_readdir s path")
    case None
    with open_dir.prems show ?thesis by auto
  next
    case (Some es)
    with open_dir.prems(1) have "distinct es" "\<forall>e \<in> set es. CHR ''/'' \<notin> set e"
      by (auto simp: names_ok_def)
    with open_dir.IH [OF Some open_dir.prems(1)] open_dir.prems(2) Some show ?thesis
      by simp
  qed
next
  case (all_read n s path v a t)
  then show ?case by simp
next
  case (dotdot n s path es v a t)
  then show ?case by (simp add: loop_dotdot)
next
  case (no_stat n s path e es v a t)
  then show ?case by (simp add: loop_no_stat)
next
  case (dot n s path es v a t st)
  then show ?case by (simp add: loop_dot)
next
  case (subdir n s path e es v a t st)
  from subdir.prems have rest: "distinct es" "\<forall>e \<in> set es. CHR ''/'' \<notin> set e"
    and e: "e \<notin> set es" "CHR ''/'' \<notin> set e"
    by simp_all
  from subdir.hyps subdir.prems(4) show ?case
  proof (cases rule: loop_subdir_cases)
    case (failed o1 err)
    with subdir.IH(1) [OF subdir.prems(1) failed(1)] show ?thesis
      by simp
  next
    case (returned o1 r v1 o2)
    have inner: "lies_under path e p" if "p \<in> set (report_paths o1)" for p
    proof -
      from that obtain sz where "Report sz p \<in> set o1"
        by (auto simp: set_report_paths)
      from reports_under(1) [OF returned(1) this] obtain e' where "lies_under (createPath path e) e' p"
        by (elim exE conjE)
      then show ?thesis by (rule under_nested)
    qed
    have later: "\<not> beneath q p" if "lies_under path e p" "q \<in> set (report_paths o2)" for p q
    proof -
      from that(2) obtain sz where "Report sz q \<in> set o2"
        by (auto simp: set_report_paths)
      from reports_under(2) [OF returned(2) this] obtain e2
        where e2: "e2 \<in> set es" "lies_under path e2 q"
        by (elim bexE conjE)
      with e rest have "e \<noteq> e2" "CHR ''/'' \<notin> set e2"
        by auto
      with that(1) e2(2) e(2) show ?thesis
        by (intro under_distinct_entries)
    qed
    have "children_first (report_paths o1)"
      by (rule subdir.IH(1) [OF subdir.prems(1) returned(1)])
    moreover have "children_first (report_paths o2)"
      by (rule subdir.IH(2) [OF returned(1) subdir.prems(1) rest returned(2)])
    moreover have "\<forall>p \<in> set (report_paths o1). \<not> beneath (createPath path e) p"
      using inner under_not_beneath_entry by blast
    moreover have "\<forall>p \<in> set (report_paths o1). \<forall>q \<in> set (report_paths o2). \<not> beneath q p"
      using inner later by blast
    moreover have "\<forall>q \<in> set (report_paths o2). \<not> beneath q (createPath path e)"
      using later under_self by blast
    ultimately show ?thesis
      by (simp add: returned(3) children_first_append)
  qed
next
  case (regular n s path e es v a t st)
  from regular.prems have rest: "distinct es" "\<forall>e \<in> set es. CHR ''/'' \<notin> set e"
    and e: "e \<notin> set es" "CHR ''/'' \<notin> set e"
    by simp_all
  from regular.hyps regular.prems(4) show ?case
  proof (cases rule: loop_regular_cases)
    case (failed o1 err)
    with getFileSize_report_paths [OF failed(1)] show ?thesis
      by simp
  next
    case (returned o1 r v1 o2)
    have later: "\<not> beneath q (createPath path e)" if "q \<in> set (report_paths o2)" for q
    proof -
      from that obtain sz where "Report sz q \<in> set o2"
        by (auto simp: set_report_paths)
      from reports_under(2) [OF returned(2) this] obtain e2
        where e2: "e2 \<in> set es" "lies_under path e2 q"
        by (elim bexE conjE)
      with e rest have "e \<noteq> e2" "CHR ''/'' \<notin> set e2"
        by auto
      with under_self e2(2) e(2) show ?thesis
        by (intro under_distinct_entries)
    qed
    have "children_first (report_paths o2)"
      by (rule regular.IH [OF returned(1) regular.prems(1) rest returned(2)])
    with later getFileSize_report_paths [OF returned(1)] show ?thesis
      by (simp add: returned(3) children_first_append)
  qed
next
  case (other n s path e es v a t st)
  then show ?case by (simp add: loop_other)
qed


lemma under_beneath: "lies_under path e q \<Longrightarrow> beneath q path"
  by (auto simp: lies_under_def beneath_def createPath_def prefix_def)

lemma demo_names_ok: "names_ok demo_sys"
  by (auto simp: names_ok_def demo_sys_def demo_readdir_def Let_def split: if_splits)

section \<open>The lines of a scan\<close>

lemma S_ISREG_not_dir: "S_ISREG m \<Longrightarrow> \<not> S_ISDIR m"
  by (auto simp: S_ISDIR_def S_ISREG_def S_IFDIR_def S_IFREG_def)

lemma addInode_returns_silent: "addInode s v ino = (out, Inr x) \<Longrightarrow> out = []"
  by (auto simp: addInode_def Let_def split: if_splits option.splits)

lemma getFileSize_returns_silent: "getFileSize s st v = (out, Inr x) \<Longrightarrow> out = []"
  by (auto simp: getFileSize_def dest: addInode_returns_silent split: if_splits sum.splits prod.splits)

lemma isInodeVisited_from_returns:
  "0 \<le> i \<Longrightarrow> isInodeVisited_from v ino i = Inr b \<Longrightarrow>
   b = (if ino \<in> set (drop (nat i) (recorded v)) then TRUE else FALSE)"
proof (induction v ino i rule: isInodeVisited_from.induct)
  case (1 visited inode i)
  show ?case
  proof (cases "i < num visited")
    case False
    with "1.prems" show ?thesis by (simp add: recorded_def)
  next
    case True
    with "1.prems" have inside: "int (length (arr visited)) > i"
      by (simp split: if_splits)
    with True "1.prems" have len: "nat i < length (recorded visited)"
      by (simp add: recorded_def)
    have nth: "recorded visited ! nat i = arr visited ! nat i"
      using True "1.prems" by (simp add: recorded_def)
    have split: "drop (nat i) (recorded visited) = arr visited ! nat i # drop (nat (i + 1)) (recorded visited)"
      using Cons_nth_drop_Suc [OF len] nth "1.prems" by (simp add: nat_add_distrib)
    show ?thesis
    proof (cases "inode = arr visited ! nat i")
      case same: True
      with True inside "1.prems" split show ?thesis by simp
    next
      case False
      with True inside "1.prems" have "isInodeVisited_from visited inode (i + 1) = Inr b"
        by simp
      with "1.IH" True inside "1.prems"(1) False
      have "b = (if inode \<in> set (drop (nat (i + 1)) (recorded visited)) then TRUE else FALSE)"
        by simp
      with split False show ?thesis by simp
    qed
  qed
qed

lemma getFileSize_returns:
  assumes "getFileSize s st v = (out, Inr (r, v'))"
  shows "r = (if 1 < st_nlink st \<and> st_ino st \<in> set (recorded v) then 0
              else ucast (blocks_div_2 (st_blocks st)))"
proof (cases "1 < st_nlink st")
  case False
  with assms show ?thesis by (simp add: getFileSize_def)
next
  case True
  with assms obtain b where b: "isInodeVisited v (st_ino st) = Inr b"
    by (cases "isInodeVisited v (st_ino st)") (simp_all add: getFileSize_def)
  from isInodeVisited_from_returns [of 0 v "st_ino st" b] b
  have "b = (if st_ino st \<in> set (recorded v) then TRUE else FALSE)"
    by (simp add: isInodeVisited_def)
  with assms True b show ?thesis
    by (auto simp: getFileSize_def TRUE_def FALSE_def split: if_splits prod.splits sum.splits)
qed

lemma printed_before_Nil: "printed_before [] r = r"
  by (cases r) (auto simp: printed_before_def)

lemma printed_before_append: "printed_before o1 (printed_before o2 r) = printed_before (o1 @ o2) r"
  by (cases r) (auto simp: printed_before_def)

lemma scan_arrives:
  "readdir_loop n s path (es1 @ es2) v a t = Some (out, Inr x) \<Longrightarrow>
   \<exists>o1 v1 t1. \<forall>es. readdir_loop n s path (es1 @ es) v a t =
                     printed_before o1 (readdir_loop n s path es v1 a t1)"
proof (induction es1 arbitrary: v t out)
  case Nil
  have "\<forall>es. readdir_loop n s path ([] @ es) v a t = printed_before [] (readdir_loop n s path es v a t)"
    by (simp add: printed_before_Nil)
  then show ?case by blast
next
  case (Cons e es1)
  let ?run = "readdir_loop n s path (e # es1 @ es2) v a t = Some (out, Inr x)"
  from Cons.prems have run: ?run by simp
  show ?case
  proof (cases "e = ''..''")
    case True
    with run have "readdir_loop n s path (es1 @ es2) v a t = Some (out, Inr x)"
      by (simp add: loop_dotdot)
    from Cons.IH [OF this] True show ?thesis
      by (simp add: loop_dotdot)
  next
    case ndd: False
    show ?thesis
    proof (cases "sys_lstat s (createPath path e)")
      case None
      with ndd run show ?thesis by (simp add: loop_no_stat)
    next
      case (Some st)
      show ?thesis
      proof (cases "e = ''.''")
        case True
        with Some run have "readdir_loop n s path (es1 @ es2) v a (t + blocks_div_2 (st_blocks st)) = Some (out, Inr x)"
          by (simp add: loop_dot)
        from Cons.IH [OF this] True Some show ?thesis
          by (simp add: loop_dot)
      next
        case nd: False
        show ?thesis
        proof (cases "S_ISDIR (st_mode st)")
          case True
          from ndd nd Some True run show ?thesis
          proof (cases rule: loop_subdir_cases)
            case (failed o1 err)
            then show ?thesis by simp
          next
            case (returned o1 r v1 o2)
            from Cons.IH [OF returned(2)] obtain o3 v3 t3 where
              "\<forall>es. readdir_loop n s path (es1 @ es) v1 a (t + scast r) =
                    printed_before o3 (readdir_loop n s path es v3 a t3)"
              by (elim exE)
            with returned(1) have "\<forall>es. readdir_loop n s path ((e # es1) @ es) v a t =
                printed_before ((o1 @ [Report (scast r) (createPath path e)]) @ o3)
                  (readdir_loop n s path es v3 a t3)"
              by (simp add: loop_subdir [OF ndd nd Some True] printed_before_append)
            then show ?thesis by blast
          qed
        next
          case False
          show ?thesis
          proof (cases "S_ISREG (st_mode st)")
            case True
            from ndd nd Some False True run show ?thesis
            proof (cases rule: loop_regular_cases)
              case (failed o1 err)
              then show ?thesis by simp
            next
              case (returned o1 r v1 o2)
              from Cons.IH [OF returned(2)] obtain o3 v3 t3 where
                "\<forall>es. readdir_loop n s path (es1 @ es) v1 a (t + scast r) =
                      printed_before o3 (readdir_loop n s path es v3 a t3)"
                by (elim exE)
              with returned(1) have "\<forall>es. readdir_loop n s path ((e # es1) @ es) v a t =
                  printed_before ((o1 @ (if a = TRUE then [Report (scast r) (createPath path e)] else [])) @ o3)
                    (readdir_loop n s path es v3 a t3)"
                by (simp add: loop_regular [OF ndd nd Some False True] printed_before_append)
              then show ?thesis by blast
            qed
          next
            case nr: False
            from run have "readdir_loop n s path (es1 @ es2) v a t = Some (out, Inr x)"
              by (simp add: loop_other [OF ndd nd Some False nr])
            from Cons.IH [OF this] show ?thesis
              by (simp add: loop_other [OF ndd nd Some False nr])
          qed
        qed
      qed
    qed
  qed
qed

lemma no_report_no_file_line: "\<forall>sz q. Report sz q \<notin> set out \<Longrightarrow> filter (\<lambda>l. \<not> file_line s l) out = out"
proof (induction out)
  case Nil
  show ?case by simp
next
  case (Cons l out)
  then show ?case by (cases l) (auto simp: file_line_def)
qed

lemma getFileSize_no_file_line:
  "getFileSize s' st v = (out, x) \<Longrightarrow> filter (\<lambda>l. \<not> file_line s l) out = out"
  using getFileSize_no_report [of s' st v out x] by (intro no_report_no_file_line) blast

lemma flag_adds_file_lines:
  "a = TRUE \<Longrightarrow> b \<noteq> TRUE \<Longrightarrow> getDirectorySize n s path v a = Some (out, res) \<Longrightarrow>
   getDirectorySize n s path v b = Some (filter (\<lambda>l. \<not> file_line s l) out, res)"
  "a = TRUE \<Longrightarrow> b \<noteq> TRUE \<Longrightarrow> readdir_loop n s path es v a t = Some (out, res) \<Longrightarrow>
   readdir_loop n s path es v b t = Some (filter (\<lambda>l. \<not> file_line s l) out, res)"
proof (induction n s path v a and n s path es v a t arbitrary: out res and out res rule: walk_induct)
  case (no_fuel s path v a)
  then show ?case by simp
next
  case (open_dir n s path v a)
  then show ?case by (auto split: option.splits)
next
  case (all_read n s path v a t)
  then show ?case by auto
next
  case (dotdot n s path es v a t)
  then show ?case by (simp add: loop_dotdot)
next
  case (no_stat n s path e es v a t)
  then show ?case by (auto simp: loop_no_stat)
next
  case (dot n s path es v a t st)
  then show ?case by (simp add: loop_dot)
next
  case (subdir n s path e es v a t st)
  have line: "\<not> file_line s (Report sz (createPath path e))" for sz
    using subdir.hyps by (simp add: file_line_def)
  from subdir.hyps subdir.prems(3) show ?case
  proof (cases rule: loop_subdir_cases)
    case (failed o1 err)
    from subdir.IH(1) [OF subdir.prems(1,2) failed(1)] failed(2,3) show ?thesis
      by (simp add: loop_subdir [OF subdir.hyps])
  next
    case (returned o1 r v1 o2)
    from subdir.IH(1) [OF subdir.prems(1,2) returned(1)]
      subdir.IH(2) [OF returned(1) subdir.prems(1,2) returned(2)] returned(3) line
    show ?thesis
      by (simp add: loop_subdir [OF subdir.hyps] printed_before_def)
  qed
next
  case (regular n s path e es v a t st)
  have line: "file_line s (Report sz (createPath path e))" for sz
    using regular.hyps by (simp add: file_line_def)
  from regular.hyps regular.prems(3) show ?case
  proof (cases rule: loop_regular_cases)
    case (failed o1 err)
    with getFileSize_no_file_line [OF failed(1), of s] regular.prems(2) show ?thesis
      by (simp add: loop_regular [OF regular.hyps])
  next
    case (returned o1 r v1 o2)
    from regular.IH [OF returned(1) regular.prems(1,2) returned(2)] returned(1,3) line
      getFileSize_no_file_line [OF returned(1), of s] regular.prems(1,2)
    show ?thesis
      by (simp add: loop_regular [OF regular.hyps] printed_before_def)
  qed
next
  case (other n s path e es v a t st)
  then show ?case by (simp add: loop_other)
qed

section \<open>Files with a single link\<close>

text \<open>
  For a file whose link count is at most 1, \<open>getFileSize\<close> prints nothing and hands the
  inode array back as it was, whatever it holds: the array is neither searched nor extended.
  The value returned is the allocation size cut to the \<open>int\<close> of the return type: the
  allocation size itself whenever that is in the range of \<open>int\<close>.
\<close>

lemma getFileSize_single_link:
  assumes "st_nlink file_stat \<le> 1"
  shows "\<exists>r. getFileSize s file_stat visited = ([], Inr (r, visited)) \<and>
             r = word_of_int (allocation_size file_stat) \<and>
             (INT_MIN \<le> allocation_size file_stat \<and> allocation_size file_stat \<le> INT_MAX \<longrightarrow>
                sint r = allocation_size file_stat)"
proof -
  from assms have "getFileSize s file_stat visited =
      ([], Inr (word_of_int (allocation_size file_stat), visited))"
    by (simp add: getFileSize_def not_less [symmetric] ucast_allocation)
  with sint_in_range [of "allocation_size file_stat"] show ?thesis
    by simp
qed

lemma getFileSize_single_link_example:
  "st_nlink demo_file \<le> 1 \<and>
   INT_MIN \<le> allocation_size demo_file \<and> allocation_size demo_file \<le> INT_MAX \<and>
   allocation_size demo_file = 2 \<and>
   getFileSize demo_sys demo_file visited_init = ([], Inr (2, visited_init))"
proof -
  have h: "st_nlink demo_file \<le> 1"
    by (simp add: demo_file_def)
  have a: "allocation_size demo_file = 2"
    by code_simp
  have run: "getFileSize demo_sys demo_file visited_init = ([], Inr (2, visited_init))"
    by code_simp
  from getFileSize_single_link [OF h, of demo_sys visited_init] a
  have "sint (2 :: 32 word) = allocation_size demo_file"
    by (simp add: INT_MIN_def INT_MAX_def)
  with h a run show ?thesis
    by (simp add: INT_MIN_def INT_MAX_def)
qed

text \<open>
  C8.  For every regular file with at most one link \<open>getFileSize\<close> is to return the full
  allocation size of the file, as its own comment has it (\<open>returns: the size of the file\<close>)
  and as its caller expects, which keeps the result in a \<open>size_t\<close>.  The return type
  \<open>int\<close> does not allow it: a regular file with one link and 8589934592 blocks (4 TiB) has
  an allocation size of 4294967296 units, which no \<open>int\<close> of 32 bits holds, and
  \<open>getFileSize\<close> returns 0 for it.  The inode array is handed back unchanged.
\<close>

theorem getFileSize_single_link_truncated:
  "S_ISREG (st_mode demo_huge) \<and> st_nlink demo_huge = 1 \<and>
   sint (st_blocks demo_huge) = 8589934592 \<and> allocation_size demo_huge = 4294967296 \<and>
   getFileSize demo_sys demo_huge visited_init = ([], Inr (0, visited_init)) \<and>
   sint (0 :: 32 word) \<noteq> allocation_size demo_huge"
  by code_simp

section \<open>Hard links are counted once\<close>

text \<open>
  Single calls of \<open>getFileSize\<close> for a file with more than one link.  If the inode is not
  recorded in a well-formed array without duplicates, the call returns the allocation size
  cut to \<open>int\<close> and appends the inode to the recorded ones, which stay free of
  duplicates.  In a well-formed array without duplicates that extends these recorded
  inodes, a call for a link to the same inode returns 0 and changes nothing; and a scan
  that starts from such an array ends with such an array.
\<close>

lemma hard_link_counted_once:
  assumes ok: "visited_ok v" and dist: "distinct (recorded v)"
    and multi: "1 < st_nlink st" and fresh: "st_ino st \<notin> set (recorded v)"
    and first: "getFileSize s st v = (out, Inr (r, v1))"
    and later: "visited_ok v2" "distinct (recorded v2)" "prefix (recorded v1) (recorded v2)"
    and walk: "readdir_loop n s path es v2 a t = Some (out', Inr (r', v3))"
    and again: "st_ino st' = st_ino st" "1 < st_nlink st'"
  shows "r = word_of_int (allocation_size st)
       \<and> (INT_MIN \<le> allocation_size st \<and> allocation_size st \<le> INT_MAX \<longrightarrow>
            sint r = allocation_size st)
       \<and> recorded v1 = recorded v @ [st_ino st]
       \<and> visited_ok v1 \<and> distinct (recorded v1)
       \<and> getFileSize s st' v2 = ([], Inr (0, v2))
       \<and> visited_ok v3 \<and> distinct (recorded v3) \<and> prefix (recorded v1) (recorded v3)"
proof -
  from getFileSize_ok [OF ok first] multi fresh
  have one: "r = word_of_int (allocation_size st)" "recorded v1 = recorded v @ [st_ino st]"
    "visited_ok v1"
    by (simp_all add: ucast_allocation)
  from one(1) sint_in_range [of "allocation_size st"]
  have exact: "INT_MIN \<le> allocation_size st \<and> allocation_size st \<le> INT_MAX \<longrightarrow>
      sint r = allocation_size st"
    by simp
  from one(2) dist fresh have d1: "distinct (recorded v1)"
    by simp
  from later(3) one(2) have "st_ino st' \<in> set (recorded v2)"
    using again(1) set_mono_prefix by fastforce
  with again(2) have zero: "getFileSize s st' v2 = ([], Inr (0, v2))"
    by (simp add: getFileSize_def isInodeVisited_eq [OF later(1)] TRUE_def)
  from walk_grows(2) [OF later(1) walk] later(2,3)
  have "visited_ok v3" "distinct (recorded v3)" "prefix (recorded v1) (recorded v3)"
    by (auto simp: grows_to_def)
  with one exact d1 zero show ?thesis
    by simp
qed

lemma hard_link_counted_once_example:
  "getFileSize demo_sys demo_link2 visited_init = ([], Inr (8, demo_visited)) \<and>
   allocation_size demo_link2 = 8 \<and>
   readdir_loop 1 demo_sys ''d'' [''sub'', ''f'', ''l''] demo_visited 1 12 =
     Some ([Report 0 ''d/sub/b'', Report 1 ''d/sub'', Report 2 ''d/f''], Inr (15, demo_visited)) \<and>
   recorded demo_visited = [7] \<and>
   getFileSize demo_sys demo_link2 demo_visited = ([], Inr (0, demo_visited))"
proof -
  have h: "visited_ok visited_init" "distinct (recorded visited_init)"
    "1 < st_nlink demo_link2" "st_ino demo_link2 \<notin> set (recorded visited_init)"
    "getFileSize demo_sys demo_link2 visited_init = ([], Inr (8, demo_visited))"
    "visited_ok demo_visited" "distinct (recorded demo_visited)"
    "prefix (recorded demo_visited) (recorded demo_visited)"
    "readdir_loop 1 demo_sys ''d'' [''sub'', ''f'', ''l''] demo_visited 1 12 =
       Some ([Report 0 ''d/sub/b'', Report 1 ''d/sub'', Report 2 ''d/f''], Inr (15, demo_visited))"
    "st_ino demo_link2 = st_ino demo_link2" "1 < st_nlink demo_link2"
    by code_simp+
  have e: "recorded visited_init = []"
    by code_simp
  have a: "allocation_size demo_link2 = 8"
    by code_simp
  note t = hard_link_counted_once [OF h]
  from t a have "sint (8 :: 32 word) = allocation_size demo_link2"
    by (simp add: INT_MIN_def INT_MAX_def)
  moreover from t e have "recorded demo_visited = [7]"
    by (simp add: demo_link2_def)
  moreover from t have "getFileSize demo_sys demo_link2 demo_visited = ([], Inr (0, demo_visited))"
    by simp
  ultimately show ?thesis
    using h(5,9) a by simp
qed

text \<open>
  C1.  The allocation size of a regular file with several links is to be added to the grand
  total exactly once, the first \<open>getFileSize\<close> call for its inode returning the size.  In
  directory \<open>h\<close> the names \<open>p\<close> and \<open>q\<close> are two links to one regular file of
  8589934592 blocks (4 TiB), whose allocation size is 4294967296 units.  The first call
  records the inode 24 and returns 0, as the \<open>int\<close> of the return type cannot hold the
  size; the call for the second link returns 0 as well.  The walk of \<open>h\<close> returns 4, the
  allocation size of the directory alone, and \<open>main\<close> reports 4 for \<open>h\<close>: the size of
  the file is not in the grand total.
\<close>

theorem hard_link_size_lost:
  "sys_readdir demo_links ''h'' = Some [''.'', ''..'', ''p'', ''q''] \<and>
   sys_lstat demo_links ''h/.'' = Some demo_dir \<and> allocation_size demo_dir = 4 \<and>
   sys_lstat demo_links ''h/p'' = Some demo_huge_link \<and>
   sys_lstat demo_links ''h/q'' = Some demo_huge_link \<and>
   S_ISREG (st_mode demo_huge_link) \<and> st_nlink demo_huge_link = 2 \<and>
   allocation_size demo_huge_link = 4294967296 \<and>
   getFileSize demo_links demo_huge_link visited_init =
     ([], Inr (0, \<lparr>num = 1, cap = 16, arr = 24 # replicate 15 0\<rparr>)) \<and>
   getDirectorySize 1 demo_links ''h'' visited_init TRUE =
     Some ([Report 0 ''h/p'', Report 0 ''h/q''],
           Inr (4, \<lparr>num = 1, cap = 16, arr = 24 # replicate 15 0\<rparr>)) \<and>
   main 1 demo_links [''du'', ''h''] = Some ([Report 4 ''h''], Exit 0)"
  by code_simp

section \<open>Growth of the inode array\<close>

text \<open>
  \<open>main\<close> starts the array with the fixed capacity \<open>INODES_CAPACITY\<close> and nothing
  recorded, once \<open>calloc\<close> has given it the block.  On a well-formed array whose
  capacity can be doubled within the range of \<open>int\<close>, \<open>addInode\<close> has two outcomes
  only.  If the store fills the last free slot and
  \<open>realloc\<close> of the doubled block fails, it prints its message and the process exits
  with status 1.  Otherwise it returns an array that records the old inodes followed by the
  new one, is well formed again, and has twice the capacity if the store filled the last
  free slot and the same capacity if not.
\<close>

lemma inode_array_growth:
  assumes ok: "visited_ok v" and room: "cap v * 2 \<le> INT_MAX"
  shows "visited_ok visited_init \<and> cap visited_init = INODES_CAPACITY \<and> recorded visited_init = [] \<and>
     (if num v + 1 = cap v \<and> \<not> sys_realloc_ok s (nat (cap v * 2) * 8)
      then addInode s v ino = ([Message ''addInode(): error reallocing''], Inl (Exit 1))
      else \<exists>v'. addInode s v ino = ([], Inr v') \<and> visited_ok v' \<and>
                recorded v' = recorded v @ [ino] \<and>
                cap v' = (if num v + 1 = cap v then 2 * cap v else cap v))"
proof -
  have init: "visited_ok visited_init \<and> cap visited_init = INODES_CAPACITY \<and> recorded visited_init = []"
    by (simp add: visited_ok_def visited_init_def INODES_CAPACITY_def INT_MAX_def recorded_def)
  show ?thesis
  proof (cases "num v + 1 = cap v \<and> \<not> sys_realloc_ok s (nat (cap v * 2) * 8)")
    case True
    with room init show ?thesis
      by (simp add: addInode_eq [OF ok])
  next
    case False
    with room have "\<exists>v'. addInode s v ino = ([], Inr v')"
      unfolding addInode_eq [OF ok] by (cases "num v + 1 = cap v") simp_all
    then obtain v' where "addInode s v ino = ([], Inr v')" ..
    with addInode_ok [OF ok this] False init show ?thesis
      by simp
  qed
qed

lemma inode_array_growth_example:
  "visited_ok demo_full \<and> cap demo_full * 2 \<le> INT_MAX \<and>
   addInode demo_sys demo_full 99 =
     ([], Inr \<lparr>num = 16, cap = 32, arr = map of_nat [1..<16] @ [99] @ replicate 16 0\<rparr>) \<and>
   addInode demo_no_memory demo_full 99 = ([Message ''addInode(): error reallocing''], Inl (Exit 1)) \<and>
   addInode demo_no_memory visited_init 99 =
     ([], Inr \<lparr>num = 1, cap = 16, arr = 99 # replicate 15 0\<rparr>)"
proof -
  have h: "visited_ok demo_full" "cap demo_full * 2 \<le> INT_MAX"
    by code_simp+
  have h0: "visited_ok visited_init" "cap visited_init * 2 \<le> INT_MAX"
    by code_simp+
  have c: "num demo_full + 1 = cap demo_full" "sys_realloc_ok demo_sys (nat (cap demo_full * 2) * 8)"
    "\<not> sys_realloc_ok demo_no_memory (nat (cap demo_full * 2) * 8)"
    "num visited_init + 1 \<noteq> cap visited_init"
    by code_simp+
  from inode_array_growth [OF h, of demo_sys 99] c
  obtain v' where 1: "addInode demo_sys demo_full 99 = ([], Inr v')"
    by auto
  have 2: "addInode demo_sys demo_full 99 =
     ([], Inr \<lparr>num = 16, cap = 32, arr = map of_nat [1..<16] @ [99] @ replicate 16 0\<rparr>)"
    by code_simp
  from inode_array_growth [OF h, of demo_no_memory 99] c
  have 3: "addInode demo_no_memory demo_full 99 = ([Message ''addInode(): error reallocing''], Inl (Exit 1))"
    by simp
  from inode_array_growth [OF h0, of demo_no_memory 99] c
  obtain v'' where 4: "addInode demo_no_memory visited_init 99 = ([], Inr v'')"
    by auto
  have 5: "addInode demo_no_memory visited_init 99 =
     ([], Inr \<lparr>num = 1, cap = 16, arr = 99 # replicate 15 0\<rparr>)"
    by code_simp
  from h 2 3 5 show ?thesis
    by simp
qed

lemma demo_limit_ok: "visited_ok demo_limit"
  by (simp add: visited_ok_def demo_limit_def INT_MAX_def)

text \<open>
  C9.  The array is to double whenever it becomes full, and the one failure of the component
  is to be a failed \<open>realloc\<close>, which ends the process with a non-zero status.  The code
  has two more.  The capacity is an \<open>int\<close>: when the last free slot of an array of
  1073741824 slots is filled, \<open>cap *= 2\<close> (line 41) overflows; the capacity cannot
  double, and C gives the step no meaning.  And \<open>main\<close> never tests the result of
  \<open>calloc\<close> (line 225), as \<open>addInode\<close> tests that of \<open>realloc\<close>: when \<open>calloc\<close>
  returns a null pointer the array has no slot, and the first \<open>addInode\<close> stores through
  the null pointer (line 37).  Neither run ends with the message and the exit status of the
  failed \<open>realloc\<close>.
\<close>

theorem inode_array_other_failures:
  "visited_ok demo_limit \<and> num demo_limit + 1 = cap demo_limit \<and>
   cap demo_limit * 2 = 2147483648 \<and> INT_MAX = 2147483647 \<and>
   addInode demo_sys demo_limit 7 = ([], Inl Undefined) \<and>
   addInode demo_sys demo_null 7 = ([], Inl Undefined)"
proof -
  have "addInode demo_sys demo_limit 7 = ([], Inl Undefined)"
    by (simp add: addInode_eq [OF demo_limit_ok]) (simp add: demo_limit_def INT_MAX_def)
  moreover have "addInode demo_sys demo_null 7 = ([], Inl Undefined)"
    by (simp add: addInode_def demo_null_def)
  moreover have "num demo_limit + 1 = cap demo_limit" "cap demo_limit * 2 = 2147483648"
    by (simp_all add: demo_limit_def)
  ultimately show ?thesis
    using demo_limit_ok by (simp add: INT_MAX_def)
qed

section \<open>The flag decides the output only\<close>

text \<open>
  C10.  Two calls of \<open>getDirectorySize\<close> that differ in the \<open>all_files\<close> flag only
  agree on everything but the printed lines: both return, with the same total and the same
  inode array, or both end with the same error, or both exceed the same depth bound.
\<close>

theorem all_files_only_affects_output:
  "map_option snd (getDirectorySize n s path v a) = map_option snd (getDirectorySize n s path v b)"
  by (rule flag_independent(1))

section \<open>The self and parent entries\<close>

text \<open>
  C5.  In the scan of a directory the entry \<open>..\<close> is passed over at once: the loop goes
  on with the same total, the same inode array and nothing printed, and no path is built
  and no \<open>lstat\<close> made for it (the equation holds whatever \<open>lstat\<close> would answer).  The
  entry \<open>.\<close> adds the allocation size that \<open>lstat\<close> gives for it, the directory's own,
  to the running total and prints nothing.  No line of a walk of the directory reports the
  path of its \<open>.\<close> or of its \<open>..\<close> entry.
\<close>

theorem dot_and_dotdot_entries:
  assumes self: "sys_lstat s (createPath path ''.'') = Some st"
    and run: "getDirectorySize k s path v' b = Some (out, res)"
  shows "readdir_loop n s path (''..'' # es) v a t = readdir_loop n s path es v a t
       \<and> readdir_loop n s path (''.'' # es) v a t =
           readdir_loop n s path es v a (t + blocks_div_2 (st_blocks st))
       \<and> Report sz (createPath path ''.'') \<notin> set out
       \<and> Report sz (createPath path ''..'') \<notin> set out"
proof -
  have "False" if "Report sz (createPath path d) \<in> set out" "d = ''.'' \<or> d = ''..''" for d
  proof -
    from reports_under(1) [OF run that(1)] obtain e where
      e: "e \<noteq> ''.''" "e \<noteq> ''..''" "lies_under path e (createPath path d)"
      by (elim exE conjE)
    from that(2) have "CHR ''/'' \<notin> set d" by auto
    with e(3) have "e = d" by (rule under_entry_name)
    with e that(2) show False by simp
  qed
  then have "Report sz (createPath path ''.'') \<notin> set out" "Report sz (createPath path ''..'') \<notin> set out"
    by blast+
  with self show ?thesis
    by (simp add: loop_dotdot loop_dot)
qed

theorem dot_and_dotdot_entries_witness:
  "sys_lstat demo_sys (createPath ''d'' ''.'') = Some demo_dir \<and>
   getDirectorySize 2 demo_sys ''d'' visited_init 1 = Some (demo_out, Inr (15, demo_visited)) \<and>
   readdir_loop 1 demo_sys ''d'' [''..'', ''f''] visited_init 1 0 =
     Some ([Report 2 ''d/f''], Inr (2, visited_init)) \<and>
   readdir_loop 1 demo_sys ''d'' [''.'', ''f''] visited_init 1 0 =
     Some ([Report 2 ''d/f''], Inr (6, visited_init)) \<and>
   Report 4 ''d/.'' \<notin> set demo_out \<and> Report 4 ''d/..'' \<notin> set demo_out"
proof -
  have h: "sys_lstat demo_sys (createPath ''d'' ''.'') = Some demo_dir"
    "getDirectorySize 2 demo_sys ''d'' visited_init 1 = Some (demo_out, Inr (15, demo_visited))"
    by code_simp+
  have r: "readdir_loop 1 demo_sys ''d'' [''f''] visited_init 1 0 =
      Some ([Report 2 ''d/f''], Inr (2, visited_init))"
    "readdir_loop 1 demo_sys ''d'' [''f''] visited_init 1 (0 + blocks_div_2 (st_blocks demo_dir)) =
      Some ([Report 2 ''d/f''], Inr (6, visited_init))"
    by code_simp+
  from dot_and_dotdot_entries [where n = 1 and es = "[''f'']" and v = visited_init and a = 1 and t = 0
        and sz = 4, OF h] r h show ?thesis
    by (simp add: createPath_def)
qed

section \<open>Entries that are neither directories nor regular files\<close>

text \<open>
  C6.  An entry that \<open>lstat\<close> classifies as neither a directory nor a regular file is
  passed over, whatever the flag and the depth bound: the loop goes on with the same total
  and the same inode array, nothing is printed and no recursive call is made, and no line
  of any walk reports its path.  A symbolic link is such an entry.  The walk never consults
  \<open>stat\<close>, which follows links: replacing it by any other function leaves the walk as it
  is.
\<close>

theorem other_entries_ignored:
  assumes entry: "e \<noteq> ''..''" "e \<noteq> ''.''" "sys_lstat s (createPath path e) = Some st"
    and kind: "\<not> S_ISDIR (st_mode st)" "\<not> S_ISREG (st_mode st)"
    and run: "getDirectorySize k s p v' b = Some (out, res)"
  shows "readdir_loop n s path (e # es) v a t = readdir_loop n s path es v a t
       \<and> Report sz (createPath path e) \<notin> set out
       \<and> getDirectorySize k (s\<lparr>sys_stat := f\<rparr>) p v' b = Some (out, res)
       \<and> (S_ISLNK m \<longrightarrow> \<not> S_ISDIR m \<and> \<not> S_ISREG m)"
proof -
  have "Report sz (createPath path e) \<notin> set out"
  proof
    assume "Report sz (createPath path e) \<in> set out"
    from reports_classified(1) [OF run this] entry(3) kind show False
      by auto
  qed
  with entry kind run show ?thesis
    by (simp add: loop_other walk_sys_stat S_ISLNK_other)
qed

theorem other_entries_ignored_witness:
  "sys_lstat demo_sys (createPath ''d'' ''l'') = Some demo_symlink \<and>
   S_ISLNK (st_mode demo_symlink) \<and> \<not> S_ISDIR (st_mode demo_symlink) \<and>
   \<not> S_ISREG (st_mode demo_symlink) \<and>
   sys_stat demo_sys ''d/l'' = Some demo_sub \<and> S_ISDIR (st_mode demo_sub) \<and>
   getDirectorySize 2 demo_sys ''d'' visited_init 1 = Some (demo_out, Inr (15, demo_visited)) \<and>
   readdir_loop 1 demo_sys ''d'' [''l'', ''f''] visited_init 1 0 =
     Some ([Report 2 ''d/f''], Inr (2, visited_init)) \<and>
   Report 1 ''d/l'' \<notin> set demo_out \<and>
   getDirectorySize 2 (demo_sys\<lparr>sys_stat := \<lambda>p. None\<rparr>) ''d'' visited_init 1 =
     Some (demo_out, Inr (15, demo_visited))"
proof -
  have h: "''l'' \<noteq> ''..''" "''l'' \<noteq> ''.''"
    "sys_lstat demo_sys (createPath ''d'' ''l'') = Some demo_symlink"
    "\<not> S_ISDIR (st_mode demo_symlink)" "\<not> S_ISREG (st_mode demo_symlink)"
    "getDirectorySize 2 demo_sys ''d'' visited_init 1 = Some (demo_out, Inr (15, demo_visited))"
    by code_simp+
  have r: "readdir_loop 1 demo_sys ''d'' [''f''] visited_init 1 0 =
      Some ([Report 2 ''d/f''], Inr (2, visited_init))"
    "S_ISLNK (st_mode demo_symlink)" "sys_stat demo_sys ''d/l'' = Some demo_sub"
    "S_ISDIR (st_mode demo_sub)"
    by code_simp+
  from other_entries_ignored [where n = 1 and es = "[''f'']" and v = visited_init and a = 1 and t = 0
        and sz = 1 and f = "\<lambda>p. None" and m = "st_mode demo_symlink", OF h]
    r h show ?thesis
    by (simp add: createPath_def)
qed

section \<open>What the flag reports\<close>

text \<open>
  C7.  When the flag is not \<open>TRUE\<close>, every line a walk prints reports a path that
  \<open>lstat\<close> classifies as a directory; and the walk with the flag \<open>TRUE\<close> differs from
  it in lines for regular files only: striking those lines from its output gives the
  output and the result of the walk without the flag.  With the flag \<open>TRUE\<close>, take a
  scan that returns and any entry of its directory that \<open>lstat\<close> classifies as a regular
  file, whatever its link count (the names \<open>.\<close> and \<open>..\<close>, which the scan never
  looks at as files, belong to directories).  The scan arrives at the entry with some
  output \<open>o1\<close>, inode array \<open>v1\<close> and running total \<open>t1\<close> (from there it goes on
  the same way whatever entries follow).  There \<open>getFileSize\<close> returns the size \<open>r\<close> for the entry,
  which is 0 if the file has more than one link and its inode is recorded in \<open>v1\<close>, and
  \<open>st_blocks / 2\<close> as \<open>int\<close> otherwise; the scan prints the line of the entry with the
  size \<open>r\<close> right after \<open>o1\<close>, and goes on to the entries that follow with the total
  \<open>t1 + r\<close>.  So every regular-file entry is reported with the very size it contributes,
  and a link to an inode already counted is reported with size 0.  At an entry that is a
  directory the scan prints the lines of the recursive call, among them those of the
  regular files beneath, and then the line of the directory.
\<close>

theorem all_files_reports:
  "(a \<noteq> TRUE \<and> getDirectorySize n s path v a = Some (out, res) \<and> Report sz q \<in> set out \<longrightarrow>
      (\<exists>st'. sys_lstat s q = Some st' \<and> S_ISDIR (st_mode st')))
   \<and> (a \<noteq> TRUE \<and> getDirectorySize n s path v TRUE = Some (out_all, res_all) \<longrightarrow>
        getDirectorySize n s path v a = Some (filter (\<lambda>l. \<not> file_line s l) out_all, res_all))
   \<and> (getDirectorySize (Suc m) s p v0 TRUE = Some (out', Inr (tot, v')) \<and>
       sys_readdir s p = Some (es1 @ e # es2) \<and> e \<noteq> ''..'' \<and> e \<noteq> ''.'' \<and>
       sys_lstat s (createPath p e) = Some st \<and> S_ISREG (st_mode st) \<longrightarrow>
        (\<exists>o1 v1 t1 r v2 o2.
           (\<forall>es. readdir_loop m s p (es1 @ es) v0 TRUE 0 =
                  printed_before o1 (readdir_loop m s p es v1 TRUE t1)) \<and>
           getFileSize s st v1 = ([], Inr (r, v2)) \<and>
           r = (if 1 < st_nlink st \<and> st_ino st \<in> set (recorded v1) then 0
                else ucast (blocks_div_2 (st_blocks st))) \<and>
           out' = o1 @ [Report (scast r) (createPath p e)] @ o2 \<and>
           readdir_loop m s p es2 v2 TRUE (t1 + scast r) = Some (o2, Inr (tot, v'))))
   \<and> (getDirectorySize (Suc m) s p v0 TRUE = Some (out', Inr (tot, v')) \<and>
       sys_readdir s p = Some (es1 @ e # es2) \<and> e \<noteq> ''..'' \<and> e \<noteq> ''.'' \<and>
       sys_lstat s (createPath p e) = Some st \<and> S_ISDIR (st_mode st) \<longrightarrow>
        (\<exists>o1 v1 t1 osub r v2 o2.
           (\<forall>es. readdir_loop m s p (es1 @ es) v0 TRUE 0 =
                  printed_before o1 (readdir_loop m s p es v1 TRUE t1)) \<and>
           getDirectorySize m s (createPath p e) v1 TRUE = Some (osub, Inr (r, v2)) \<and>
           out' = o1 @ osub @ [Report (scast r) (createPath p e)] @ o2 \<and>
           readdir_loop m s p es2 v2 TRUE (t1 + scast r) = Some (o2, Inr (tot, v'))))"
proof (intro conjI impI; (elim conjE)?)
  assume "a \<noteq> TRUE" "getDirectorySize n s path v a = Some (out, res)" "Report sz q \<in> set out"
  with reports_classified(1) [of n s path v a out res sz q]
  show "\<exists>st'. sys_lstat s q = Some st' \<and> S_ISDIR (st_mode st')"
    by auto
next
  assume "a \<noteq> TRUE" "getDirectorySize n s path v TRUE = Some (out_all, res_all)"
  with flag_adds_file_lines(1) [OF refl]
  show "getDirectorySize n s path v a = Some (filter (\<lambda>l. \<not> file_line s l) out_all, res_all)"
    by blast
next
  assume run: "getDirectorySize (Suc m) s p v0 TRUE = Some (out', Inr (tot, v'))"
    and ls: "sys_readdir s p = Some (es1 @ e # es2)"
    and e: "e \<noteq> ''..''" "e \<noteq> ''.''" "sys_lstat s (createPath p e) = Some st"
    and reg: "S_ISREG (st_mode st)"
  from reg have nodir: "\<not> S_ISDIR (st_mode st)"
    by (rule S_ISREG_not_dir)
  from run ls have loop: "readdir_loop m s p (es1 @ e # es2) v0 TRUE 0 = Some (out', Inr (tot, v'))"
    by simp
  from scan_arrives [OF loop] obtain o1 v1 t1 where
    arr: "\<forall>es. readdir_loop m s p (es1 @ es) v0 TRUE 0 =
               printed_before o1 (readdir_loop m s p es v1 TRUE t1)"
    by (elim exE)
  from arr have "readdir_loop m s p (es1 @ e # es2) v0 TRUE 0 =
      printed_before o1 (readdir_loop m s p (e # es2) v1 TRUE t1)"
    by (rule spec)
  with loop obtain orest where rest: "readdir_loop m s p (e # es2) v1 TRUE t1 = Some (orest, Inr (tot, v'))"
    and out: "out' = o1 @ orest"
    by (auto simp: printed_before_Some)
  from e nodir reg rest show "\<exists>o1 v1 t1 r v2 o2.
           (\<forall>es. readdir_loop m s p (es1 @ es) v0 TRUE 0 =
                  printed_before o1 (readdir_loop m s p es v1 TRUE t1)) \<and>
           getFileSize s st v1 = ([], Inr (r, v2)) \<and>
           r = (if 1 < st_nlink st \<and> st_ino st \<in> set (recorded v1) then 0
                else ucast (blocks_div_2 (st_blocks st))) \<and>
           out' = o1 @ [Report (scast r) (createPath p e)] @ o2 \<and>
           readdir_loop m s p es2 v2 TRUE (t1 + scast r) = Some (o2, Inr (tot, v'))"
  proof (cases rule: loop_regular_cases)
    case (failed og err)
    then show ?thesis by simp
  next
    case (returned og r v2 o2)
    from getFileSize_returns_silent [OF returned(1)] have og: "og = []" .
    from returned(1)
    have r: "r = (if 1 < st_nlink st \<and> st_ino st \<in> set (recorded v1) then 0
                else ucast (blocks_div_2 (st_blocks st)))"
      by (rule getFileSize_returns)
    from returned(1) og have g: "getFileSize s st v1 = ([], Inr (r, v2))"
      by simp
    from returned(3) og out have o: "out' = o1 @ [Report (scast r) (createPath p e)] @ o2"
      by simp
    show ?thesis
      by (intro exI conjI) (rule arr, rule g, rule r, rule o, rule returned(2))
  qed
next
  assume run: "getDirectorySize (Suc m) s p v0 TRUE = Some (out', Inr (tot, v'))"
    and ls: "sys_readdir s p = Some (es1 @ e # es2)"
    and e: "e \<noteq> ''..''" "e \<noteq> ''.''" "sys_lstat s (createPath p e) = Some st"
    and dir: "S_ISDIR (st_mode st)"
  from run ls have loop: "readdir_loop m s p (es1 @ e # es2) v0 TRUE 0 = Some (out', Inr (tot, v'))"
    by simp
  from scan_arrives [OF loop] obtain o1 v1 t1 where
    arr: "\<forall>es. readdir_loop m s p (es1 @ es) v0 TRUE 0 =
               printed_before o1 (readdir_loop m s p es v1 TRUE t1)"
    by (elim exE)
  from arr have "readdir_loop m s p (es1 @ e # es2) v0 TRUE 0 =
      printed_before o1 (readdir_loop m s p (e # es2) v1 TRUE t1)"
    by (rule spec)
  with loop obtain orest where rest: "readdir_loop m s p (e # es2) v1 TRUE t1 = Some (orest, Inr (tot, v'))"
    and out: "out' = o1 @ orest"
    by (auto simp: printed_before_Some)
  from e dir rest show "\<exists>o1 v1 t1 osub r v2 o2.
           (\<forall>es. readdir_loop m s p (es1 @ es) v0 TRUE 0 =
                  printed_before o1 (readdir_loop m s p es v1 TRUE t1)) \<and>
           getDirectorySize m s (createPath p e) v1 TRUE = Some (osub, Inr (r, v2)) \<and>
           out' = o1 @ osub @ [Report (scast r) (createPath p e)] @ o2 \<and>
           readdir_loop m s p es2 v2 TRUE (t1 + scast r) = Some (o2, Inr (tot, v'))"
  proof (cases rule: loop_subdir_cases)
    case (failed osub err)
    then show ?thesis by simp
  next
    case (returned osub r v2 o2)
    from returned(3) out have o: "out' = o1 @ osub @ [Report (scast r) (createPath p e)] @ o2"
      by simp
    show ?thesis
      by (intro exI conjI) (rule arr, rule returned(1), rule o, rule returned(2))
  qed
qed

theorem all_files_reports_witness:
  "getDirectorySize 2 demo_sys ''d'' visited_init FALSE =
     Some ([Report 1 ''d/sub''], Inr (15, demo_visited)) \<and>
   (\<exists>st'. sys_lstat demo_sys ''d/sub'' = Some st' \<and> S_ISDIR (st_mode st')) \<and>
   getDirectorySize 2 demo_sys ''d'' visited_init TRUE = Some (demo_out, Inr (15, demo_visited)) \<and>
   filter (\<lambda>l. \<not> file_line demo_sys l) demo_out = [Report 1 ''d/sub''] \<and>
   sys_readdir demo_sys ''d'' = Some ([''.'', ''..'', ''a'', ''sub''] @ ''f'' # [''l'']) \<and>
   sys_lstat demo_sys (createPath ''d'' ''f'') = Some demo_file \<and>
   S_ISREG (st_mode demo_file) \<and> st_nlink demo_file = 1 \<and>
   (\<exists>o1 v1 t1 v2 o2.
      (\<forall>es. readdir_loop 1 demo_sys ''d'' ([''.'', ''..'', ''a'', ''sub''] @ es) visited_init TRUE 0 =
             printed_before o1 (readdir_loop 1 demo_sys ''d'' es v1 TRUE t1)) \<and>
      getFileSize demo_sys demo_file v1 = ([], Inr (2, v2)) \<and>
      demo_out = o1 @ [Report 2 ''d/f''] @ o2 \<and>
      readdir_loop 1 demo_sys ''d'' [''l''] v2 TRUE (t1 + 2) = Some (o2, Inr (15, demo_visited))) \<and>
   getDirectorySize 1 demo_sys ''d/sub'' demo_visited TRUE =
     Some ([Report 0 ''d/sub/b''], Inr (1, demo_visited)) \<and>
   sys_readdir demo_sys ''d/sub'' = Some ([''..''] @ ''b'' # [''.'']) \<and>
   sys_lstat demo_sys (createPath ''d/sub'' ''b'') = Some demo_link2 \<and>
   S_ISREG (st_mode demo_link2) \<and> 1 < st_nlink demo_link2 \<and>
   st_ino demo_link2 \<in> set (recorded demo_visited) \<and>
   (\<exists>o1 t1 o2.
      (\<forall>es. readdir_loop 0 demo_sys ''d/sub'' ([''..''] @ es) demo_visited TRUE 0 =
             printed_before o1 (readdir_loop 0 demo_sys ''d/sub'' es demo_visited TRUE t1)) \<and>
      getFileSize demo_sys demo_link2 demo_visited = ([], Inr (0, demo_visited)) \<and>
      [Report 0 ''d/sub/b''] = o1 @ [Report 0 ''d/sub/b''] @ o2 \<and>
      readdir_loop 0 demo_sys ''d/sub'' [''.''] demo_visited TRUE t1 = Some (o2, Inr (1, demo_visited))) \<and>
   sys_readdir demo_sys ''d'' = Some ([''.'', ''..'', ''a''] @ ''sub'' # [''f'', ''l'']) \<and>
   sys_lstat demo_sys (createPath ''d'' ''sub'') = Some demo_sub \<and> S_ISDIR (st_mode demo_sub) \<and>
   (\<exists>o1 v1 t1 osub r v2 o2.
      (\<forall>es. readdir_loop 1 demo_sys ''d'' ([''.'', ''..'', ''a''] @ es) visited_init TRUE 0 =
             printed_before o1 (readdir_loop 1 demo_sys ''d'' es v1 TRUE t1)) \<and>
      getDirectorySize 1 demo_sys (createPath ''d'' ''sub'') v1 TRUE = Some (osub, Inr (r, v2)) \<and>
      demo_out = o1 @ osub @ [Report (scast r) (createPath ''d'' ''sub'')] @ o2 \<and>
      readdir_loop 1 demo_sys ''d'' [''f'', ''l''] v2 TRUE (t1 + scast r) =
        Some (o2, Inr (15, demo_visited)))"
proof -
  have off: "FALSE \<noteq> TRUE"
    "getDirectorySize 2 demo_sys ''d'' visited_init FALSE =
       Some ([Report 1 ''d/sub''], Inr (15, demo_visited))"
    "Report 1 ''d/sub'' \<in> set [Report 1 ''d/sub'']"
    by code_simp+
  have on: "getDirectorySize 2 demo_sys ''d'' visited_init TRUE = Some (demo_out, Inr (15, demo_visited))"
    by code_simp
  have f: "getDirectorySize (Suc 1) demo_sys ''d'' visited_init TRUE = Some (demo_out, Inr (15, demo_visited))"
    "sys_readdir demo_sys ''d'' = Some ([''.'', ''..'', ''a'', ''sub''] @ ''f'' # [''l''])"
    "''f'' \<noteq> ''..''" "''f'' \<noteq> ''.''"
    "sys_lstat demo_sys (createPath ''d'' ''f'') = Some demo_file" "S_ISREG (st_mode demo_file)"
    by code_simp+
  have f1: "st_nlink demo_file = 1" "ucast (blocks_div_2 (st_blocks demo_file)) = (2 :: 32 word)"
    by code_simp+
  have b: "getDirectorySize (Suc 0) demo_sys ''d/sub'' demo_visited TRUE =
       Some ([Report 0 ''d/sub/b''], Inr (1, demo_visited))"
    "sys_readdir demo_sys ''d/sub'' = Some ([''..''] @ ''b'' # [''.''])"
    "''b'' \<noteq> ''..''" "''b'' \<noteq> ''.''"
    "sys_lstat demo_sys (createPath ''d/sub'' ''b'') = Some demo_link2" "S_ISREG (st_mode demo_link2)"
    by code_simp+
  have b1: "1 < st_nlink demo_link2" "st_ino demo_link2 \<in> set (recorded demo_visited)"
    "readdir_loop 0 demo_sys ''d/sub'' [''..''] demo_visited TRUE 0 = Some ([], Inr (0, demo_visited))"
    by code_simp+
  have d: "sys_readdir demo_sys ''d'' = Some ([''.'', ''..'', ''a''] @ ''sub'' # [''f'', ''l''])"
    "''sub'' \<noteq> ''..''" "''sub'' \<noteq> ''.''"
    "sys_lstat demo_sys (createPath ''d'' ''sub'') = Some demo_sub" "S_ISDIR (st_mode demo_sub)"
    by code_simp+
  note t = all_files_reports [where s = demo_sys]
  have c1: "\<exists>st'. sys_lstat demo_sys ''d/sub'' = Some st' \<and> S_ISDIR (st_mode st')"
    by (rule t [where a = FALSE and n = 2 and path = "''d''" and v = visited_init
          and out = "[Report 1 ''d/sub'']" and res = "Inr (15, demo_visited)" and sz = 1
          and q = "''d/sub''", THEN conjunct1, THEN mp])
       (intro conjI off)
  have "getDirectorySize 2 demo_sys ''d'' visited_init FALSE =
      Some (filter (\<lambda>l. \<not> file_line demo_sys l) demo_out, Inr (15, demo_visited))"
    by (rule t [where a = FALSE and n = 2 and path = "''d''" and v = visited_init
          and out_all = demo_out and res_all = "Inr (15, demo_visited)",
          THEN conjunct2, THEN conjunct1, THEN mp])
       (intro conjI off on)
  with off(2) have c2: "filter (\<lambda>l. \<not> file_line demo_sys l) demo_out = [Report 1 ''d/sub'']"
    by simp
  have "\<exists>o1 v1 t1 r v2 o2.
      (\<forall>es. readdir_loop 1 demo_sys ''d'' ([''.'', ''..'', ''a'', ''sub''] @ es) visited_init TRUE 0 =
             printed_before o1 (readdir_loop 1 demo_sys ''d'' es v1 TRUE t1)) \<and>
      getFileSize demo_sys demo_file v1 = ([], Inr (r, v2)) \<and>
      r = (if 1 < st_nlink demo_file \<and> st_ino demo_file \<in> set (recorded v1) then 0
            else ucast (blocks_div_2 (st_blocks demo_file))) \<and>
      demo_out = o1 @ [Report (scast r) (createPath ''d'' ''f'')] @ o2 \<and>
      readdir_loop 1 demo_sys ''d'' [''l''] v2 TRUE (t1 + scast r) = Some (o2, Inr (15, demo_visited))"
    by (rule t [where ?v0.0 = visited_init and m = 1 and p = "''d''" and out' = demo_out and tot = 15
          and v' = demo_visited and ?es1.0 = "[''.'', ''..'', ''a'', ''sub'']" and e = "''f''"
          and ?es2.0 = "[''l'']" and st = demo_file,
          THEN conjunct2, THEN conjunct2, THEN conjunct1, THEN mp])
       (intro conjI f)
  then obtain o1 v1 t1 r v2 o2 where c3:
      "\<forall>es. readdir_loop 1 demo_sys ''d'' ([''.'', ''..'', ''a'', ''sub''] @ es) visited_init TRUE 0 =
             printed_before o1 (readdir_loop 1 demo_sys ''d'' es v1 TRUE t1)"
      "getFileSize demo_sys demo_file v1 = ([], Inr (r, v2))"
      "r = (if 1 < st_nlink demo_file \<and> st_ino demo_file \<in> set (recorded v1) then 0
            else ucast (blocks_div_2 (st_blocks demo_file)))"
      "demo_out = o1 @ [Report (scast r) (createPath ''d'' ''f'')] @ o2"
      "readdir_loop 1 demo_sys ''d'' [''l''] v2 TRUE (t1 + scast r) = Some (o2, Inr (15, demo_visited))"
    by (elim exE conjE)
  from c3(3) f1 have r: "r = 2"
    by simp
  have p: "createPath ''d'' ''f'' = ''d/f''" "scast (2 :: 32 word) = (2 :: 64 word)"
    by code_simp+
  have c3': "\<exists>o1 v1 t1 v2 o2.
      (\<forall>es. readdir_loop 1 demo_sys ''d'' ([''.'', ''..'', ''a'', ''sub''] @ es) visited_init TRUE 0 =
             printed_before o1 (readdir_loop 1 demo_sys ''d'' es v1 TRUE t1)) \<and>
      getFileSize demo_sys demo_file v1 = ([], Inr (2, v2)) \<and>
      demo_out = o1 @ [Report 2 ''d/f''] @ o2 \<and>
      readdir_loop 1 demo_sys ''d'' [''l''] v2 TRUE (t1 + 2) = Some (o2, Inr (15, demo_visited))"
    using c3(1) c3(2,4,5) [unfolded r p]
    by (intro exI [of _ o1] exI [of _ v1] exI [of _ t1] exI [of _ v2] exI [of _ o2] conjI)
  have "\<exists>o1 v1 t1 r v2 o2.
      (\<forall>es. readdir_loop 0 demo_sys ''d/sub'' ([''..''] @ es) demo_visited TRUE 0 =
             printed_before o1 (readdir_loop 0 demo_sys ''d/sub'' es v1 TRUE t1)) \<and>
      getFileSize demo_sys demo_link2 v1 = ([], Inr (r, v2)) \<and>
      r = (if 1 < st_nlink demo_link2 \<and> st_ino demo_link2 \<in> set (recorded v1) then 0
            else ucast (blocks_div_2 (st_blocks demo_link2))) \<and>
      [Report 0 ''d/sub/b''] = o1 @ [Report (scast r) (createPath ''d/sub'' ''b'')] @ o2 \<and>
      readdir_loop 0 demo_sys ''d/sub'' [''.''] v2 TRUE (t1 + scast r) = Some (o2, Inr (1, demo_visited))"
    by (rule t [where ?v0.0 = demo_visited and m = 0 and p = "''d/sub''" and out' = "[Report 0 ''d/sub/b'']"
          and tot = 1 and v' = demo_visited and ?es1.0 = "[''..'']" and e = "''b''"
          and ?es2.0 = "[''.'']" and st = demo_link2,
          THEN conjunct2, THEN conjunct2, THEN conjunct1, THEN mp])
       (intro conjI b)
  then obtain o1' v1' t1' r' v2' o2' where c4:
      "\<forall>es. readdir_loop 0 demo_sys ''d/sub'' ([''..''] @ es) demo_visited TRUE 0 =
             printed_before o1' (readdir_loop 0 demo_sys ''d/sub'' es v1' TRUE t1')"
      "getFileSize demo_sys demo_link2 v1' = ([], Inr (r', v2'))"
      "r' = (if 1 < st_nlink demo_link2 \<and> st_ino demo_link2 \<in> set (recorded v1') then 0
            else ucast (blocks_div_2 (st_blocks demo_link2)))"
      "[Report 0 ''d/sub/b''] = o1' @ [Report (scast r') (createPath ''d/sub'' ''b'')] @ o2'"
      "readdir_loop 0 demo_sys ''d/sub'' [''.''] v2' TRUE (t1' + scast r') = Some (o2', Inr (1, demo_visited))"
    by (elim exE conjE)
  from c4(1) have "readdir_loop 0 demo_sys ''d/sub'' ([''..''] @ []) demo_visited TRUE 0 =
             printed_before o1' (readdir_loop 0 demo_sys ''d/sub'' [] v1' TRUE t1')"
    by (rule spec)
  with b1(3) have v1': "v1' = demo_visited"
    by (simp add: printed_before_def)
  with c4(3) b1 have r': "r' = 0"
    by simp
  have g: "getFileSize demo_sys demo_link2 demo_visited = ([], Inr (0, demo_visited))"
    by code_simp
  with c4(2) v1' r' have v2': "v2' = demo_visited"
    by simp
  have p': "createPath ''d/sub'' ''b'' = ''d/sub/b''" "scast (0 :: 32 word) = (0 :: 64 word)"
    by code_simp+
  have z: "t1' + 0 = t1'"
    by simp
  have c4': "\<exists>o1 t1 o2.
      (\<forall>es. readdir_loop 0 demo_sys ''d/sub'' ([''..''] @ es) demo_visited TRUE 0 =
             printed_before o1 (readdir_loop 0 demo_sys ''d/sub'' es demo_visited TRUE t1)) \<and>
      getFileSize demo_sys demo_link2 demo_visited = ([], Inr (0, demo_visited)) \<and>
      [Report 0 ''d/sub/b''] = o1 @ [Report 0 ''d/sub/b''] @ o2 \<and>
      readdir_loop 0 demo_sys ''d/sub'' [''.''] demo_visited TRUE t1 = Some (o2, Inr (1, demo_visited))"
    using c4(1) [unfolded v1'] g c4(4,5) [unfolded v1' r' v2' p' z]
    by (intro exI [of _ o1'] exI [of _ t1'] exI [of _ o2'] conjI)
  have c5: "\<exists>o1 v1 t1 osub r v2 o2.
      (\<forall>es. readdir_loop 1 demo_sys ''d'' ([''.'', ''..'', ''a''] @ es) visited_init TRUE 0 =
             printed_before o1 (readdir_loop 1 demo_sys ''d'' es v1 TRUE t1)) \<and>
      getDirectorySize 1 demo_sys (createPath ''d'' ''sub'') v1 TRUE = Some (osub, Inr (r, v2)) \<and>
      demo_out = o1 @ osub @ [Report (scast r) (createPath ''d'' ''sub'')] @ o2 \<and>
      readdir_loop 1 demo_sys ''d'' [''f'', ''l''] v2 TRUE (t1 + scast r) =
        Some (o2, Inr (15, demo_visited))"
    by (rule t [where ?v0.0 = visited_init and m = 1 and p = "''d''" and out' = demo_out and tot = 15
          and v' = demo_visited and ?es1.0 = "[''.'', ''..'', ''a'']" and e = "''sub''"
          and ?es2.0 = "[''f'', ''l'']" and st = demo_sub,
          THEN conjunct2, THEN conjunct2, THEN conjunct2, THEN mp])
       (intro conjI f(1) d)
  have b2: "getDirectorySize 1 demo_sys ''d/sub'' demo_visited TRUE =
      Some ([Report 0 ''d/sub/b''], Inr (1, demo_visited))"
    by code_simp
  from off(2) c1 on c2 f(2,5,6) f1(1) c3' b2 b(2,5,6) b1(1,2) c4' d(1,4,5) c5 show ?thesis
    by (intro conjI)
qed

section \<open>Termination of the walk\<close>

text \<open>
  C3.  On a finite directory tree the walk of any directory returns: there is one result
  that \<open>getDirectorySize\<close> yields for every depth bound above the height of the
  directory, so the recursion ends and the bound plays no part in the result.  The tree
  need only be well founded along the entries other than \<open>.\<close> and \<open>..\<close>: the entry
  \<open>..\<close> is skipped and the entry \<open>.\<close> is consumed without a recursive call, although
  both are directories and lead back into the tree.
\<close>

theorem walk_terminates:
  assumes "finite_tree s height"
  shows "\<exists>x. \<forall>n. height path < n \<longrightarrow> getDirectorySize n s path v a = Some x"
proof -
  from fuel_enough(1) [OF assms, of path "Suc (height path)" v a]
  obtain x where x: "getDirectorySize (Suc (height path)) s path v a = Some x"
    by auto
  have "getDirectorySize n s path v a = Some x" if "height path < n" for n
  proof -
    from that have "n = Suc (height path) + (n - Suc (height path))"
      by simp
    with fuel_mono(1) [OF x, of "n - Suc (height path)"] show ?thesis
      by simp
  qed
  then show ?thesis by blast
qed

theorem walk_terminates_witness:
  "finite_tree demo_sys demo_height \<and> demo_height ''d'' = 1 \<and>
   sys_readdir demo_sys ''d/././.'' = Some [''.'', ''..'', ''a'', ''sub'', ''f'', ''l''] \<and>
   sys_lstat demo_sys ''d/sub/../.'' = Some demo_dir \<and>
   getDirectorySize 2 demo_sys ''d'' visited_init 1 = Some (demo_out, Inr (15, demo_visited)) \<and>
   getDirectorySize 1000 demo_sys ''d'' visited_init 1 = Some (demo_out, Inr (15, demo_visited)) \<and>
   getDirectorySize 1 demo_sys ''d'' visited_init 1 = None"
proof -
  from walk_terminates [OF demo_finite_tree, of "''d''" visited_init 1]
  obtain x where x: "\<And>n. demo_height ''d'' < n \<Longrightarrow> getDirectorySize n demo_sys ''d'' visited_init 1 = Some x"
    by blast
  have h: "demo_height ''d'' = 1"
    by code_simp
  have two: "getDirectorySize 2 demo_sys ''d'' visited_init 1 = Some (demo_out, Inr (15, demo_visited))"
    by code_simp
  with x [of 2] h have "x = (demo_out, Inr (15, demo_visited))"
    by simp
  with x [of 1000] h have many: "getDirectorySize 1000 demo_sys ''d'' visited_init 1 = Some (demo_out, Inr (15, demo_visited))"
    by simp
  have cyc: "sys_readdir demo_sys ''d/././.'' = Some [''.'', ''..'', ''a'', ''sub'', ''f'', ''l'']"
    "sys_lstat demo_sys ''d/sub/../.'' = Some demo_dir"
    "getDirectorySize 1 demo_sys ''d'' visited_init 1 = None"
    by code_simp+
  from demo_finite_tree h two many cyc show ?thesis
    by simp
qed

section \<open>The total of a directory\<close>

text \<open>
  Let a directory be open for reading, list itself once and let \<open>lstat\<close> answer for its
  \<open>.\<close> entry.  Then the total that \<open>getDirectorySize\<close> returns for it is the sum of the
  directory's own allocation size, of the allocation sizes of its regular-file entries that
  are not deduplicated away, and of the totals returned by the recursive calls for its
  subdirectory entries, cut to the \<open>int\<close> of the return type: it is that sum whenever the
  sum is in the range of \<open>int\<close>.  For a directory whose entries are \<open>.\<close> and \<open>..\<close>
  only, the call prints nothing and leaves the inode array as it was.
\<close>

lemma usage_total:
  assumes ok: "visited_ok v"
    and listing: "sys_readdir s path = Some es" "count_list es ''.'' = 1"
    and own: "sys_lstat s (createPath path ''.'') = Some dst"
    and run: "getDirectorySize (Suc n) s path v a = Some (out, Inr (tot, v'))"
  shows "tot = word_of_int (allocation_size dst
                            + sum_list (fst (child_sizes n s path es v a))
                            + sum_list (snd (child_sizes n s path es v a)))
       \<and> (INT_MIN \<le> allocation_size dst
                     + sum_list (fst (child_sizes n s path es v a))
                     + sum_list (snd (child_sizes n s path es v a)) \<and>
          allocation_size dst
            + sum_list (fst (child_sizes n s path es v a))
            + sum_list (snd (child_sizes n s path es v a)) \<le> INT_MAX \<longrightarrow>
          sint tot = allocation_size dst
                     + sum_list (fst (child_sizes n s path es v a))
                     + sum_list (snd (child_sizes n s path es v a)))
       \<and> (set es \<subseteq> {''.'', ''..''} \<longrightarrow>
            tot = word_of_int (allocation_size dst) \<and> out = [] \<and> v' = v)"
proof -
  define k where "k = allocation_size dst + sum_list (fst (child_sizes n s path es v a))
                      + sum_list (snd (child_sizes n s path es v a))"
  from run listing(1) have loop: "readdir_loop n s path es v a 0 = Some (out, Inr (tot, v'))"
    by simp
  from loop_total(2) [OF ok loop] listing(2) own
  have sum: "tot = word_of_int k"
    by (simp add: own_size_def k_def)
  have exact: "sint tot = k" if "INT_MIN \<le> k \<and> k \<le> INT_MAX"
    using that sint_in_range [of k] sum by simp
  have "tot = word_of_int (allocation_size dst) \<and> out = [] \<and> v' = v"
    if "set es \<subseteq> {''.'', ''..''}"
    using sum loop_dots [OF that loop] by (simp add: child_sizes_dots [OF that] k_def)
  with sum exact show ?thesis
    unfolding k_def by blast
qed

lemma usage_total_example:
  "getDirectorySize (Suc 1) demo_sys ''d'' visited_init 0 =
     Some ([Report 1 ''d/sub''], Inr (15, demo_visited)) \<and>
   allocation_size demo_dir = 4 \<and>
   child_sizes 1 demo_sys ''d'' [''.'', ''..'', ''a'', ''sub'', ''f'', ''l''] visited_init 0 = ([8, 2], [1]) \<and>
   sint (15 :: 32 word) = 4 + sum_list [8, 2] + sum_list [1] \<and>
   getDirectorySize (Suc 0) demo_empty ''e'' visited_init 0 = Some ([], Inr (1, visited_init)) \<and>
   allocation_size demo_sub = 1"
proof -
  have h: "visited_ok visited_init"
    "sys_readdir demo_sys ''d'' = Some [''.'', ''..'', ''a'', ''sub'', ''f'', ''l'']"
    "count_list [''.'', ''..'', ''a'', ''sub'', ''f'', ''l''] ''.'' = 1"
    "sys_lstat demo_sys (createPath ''d'' ''.'') = Some demo_dir"
    "getDirectorySize (Suc 1) demo_sys ''d'' visited_init 0 =
       Some ([Report 1 ''d/sub''], Inr (15, demo_visited))"
    by code_simp+
  have h3: "sys_readdir demo_empty ''e'' = Some [''.'', ''..'']"
    "count_list [''.'', ''..''] ''.'' = 1"
    "sys_lstat demo_empty (createPath ''e'' ''.'') = Some demo_sub"
    "getDirectorySize (Suc 0) demo_empty ''e'' visited_init 0 = Some ([], Inr (1, visited_init))"
    by code_simp+
  have c: "child_sizes 1 demo_sys ''d'' [''.'', ''..'', ''a'', ''sub'', ''f'', ''l''] visited_init 0 = ([8, 2], [1])"
    by code_simp
  have b: "allocation_size demo_dir = 4" "allocation_size demo_sub = 1"
    by code_simp+
  have dots: "set [''.'', ''..''] \<subseteq> {''.'', ''..''}"
    by simp
  note t = usage_total [OF h, unfolded c fst_conv snd_conv b]
  from t have e2: "sint (15 :: 32 word) = 4 + sum_list [8, 2] + sum_list [1]"
    by (simp add: INT_MIN_def INT_MAX_def)
  from usage_total [OF h(1) h3] dots have e3: "(1 :: 32 word) = word_of_int (allocation_size demo_sub)"
    by blast
  from h(5) b c e2 h3(4) show ?thesis
    by blast
qed

text \<open>
  C2.  The total that \<open>getDirectorySize\<close> returns for a directory is to be the sum of the
  directory's own allocation size, of the sizes of its regular files and of the totals of its
  subdirectories, as its own comment has it (\<open>returns: the total size of the directory\<close>).
  The function adds the sizes up in a \<open>size_t\<close> and loses the sum at \<open>return total\<close>,
  through its return type \<open>int\<close>.  Directory \<open>g\<close> has an allocation size of 4 units and
  holds two regular files of 2147483648 blocks (1 TiB), that is 1073741824 units, each: the
  sum is 2147483652 units, \<open>getDirectorySize\<close> returns the \<open>int\<close> -2147483644, and
  \<open>main\<close> reports 18446744071562067972 for \<open>g\<close>.
\<close>

theorem usage_total_overflows:
  "sys_readdir demo_big ''g'' = Some [''.'', ''..'', ''x'', ''y''] \<and>
   sys_lstat demo_big ''g/.'' = Some demo_dir \<and> allocation_size demo_dir = 4 \<and>
   child_sizes 0 demo_big ''g'' [''.'', ''..'', ''x'', ''y''] visited_init 0 =
     ([1073741824, 1073741824], []) \<and>
   4 + sum_list [1073741824, 1073741824] + sum_list [] = (2147483652 :: int) \<and>
   getDirectorySize 1 demo_big ''g'' visited_init 0 = Some ([], Inr (0x80000004, visited_init)) \<and>
   sint (0x80000004 :: 32 word) = - 2147483644 \<and>
   main 1 demo_big [''du'', ''g''] = Some ([Report 18446744071562067972 ''g''], Exit 0)"
  by code_simp

section \<open>Children are reported before their parent\<close>

text \<open>
  C4.  Let directory listings be as every file system gives them (no name twice, no slash
  in a name), and let \<open>main\<close> get at most two arguments and find its path.  Whatever the
  walk of the path prints, every report line of it is for a path beneath the root path, and
  no report is followed by the report of a path beneath it: all reports beneath a reported
  directory stand before its own.  When the walk returns, the run prints the lines of the
  walk followed by one last line, the report that \<open>main\<close> itself makes for the root path
  (with the slash put back if one was trimmed), and the order holds for the whole output.
  When the walk ends the process instead, the run prints the lines of the walk and nothing
  more.
\<close>

theorem children_before_parent:
  assumes names: "names_ok s"
    and args: "length argv \<le> 3" "trimPath (parsePath argv) = (path, slash)"
      "doesPathExist s path \<noteq> 0"
    and walk: "getDirectorySize n s path visited_init (parseOptions argv) = Some (out, res)"
  shows "children_first (report_paths out)
       \<and> (\<forall>q \<in> set (report_paths out). beneath q path)
       \<and> (case res of
            Inl e \<Rightarrow> main n s argv = Some (out, e)
          | Inr (r, v') \<Rightarrow>
              main n s argv =
                Some (out @ [Report (scast r) (if slash = TRUE then path @ ''/'' else path)], Exit 0) \<and>
              children_first
                (report_paths (out @ [Report (scast r) (if slash = TRUE then path @ ''/'' else path)])))"
proof -
  let ?root = "if slash = TRUE then path @ ''/'' else path"
  have below: "beneath q path" if "q \<in> set (report_paths out)" for q
  proof -
    from that obtain sz where "Report sz q \<in> set out"
      by (auto simp: set_report_paths)
    from reports_under(1) [OF walk this] obtain e where "lies_under path e q"
      by (elim exE conjE)
    then show ?thesis by (rule under_beneath)
  qed
  have last: "\<not> beneath ?root q" if "q \<in> set (report_paths out)" for q
  proof
    assume "beneath ?root q"
    then have "length (q @ ''/'') \<le> length ?root"
      unfolding beneath_def by (rule prefix_length_le)
    moreover from below [OF that] have "length (path @ ''/'') \<le> length q"
      unfolding beneath_def by (rule prefix_length_le)
    ultimately show False by (simp split: if_splits)
  qed
  have order: "children_first (report_paths out)"
    by (rule walk_children_first(1) [OF names walk])
  with last have whole: "children_first (report_paths (out @ [Report sz ?root]))" for sz
    by (simp add: children_first_append)
  have "case res of
          Inl e \<Rightarrow> main n s argv = Some (out, e)
        | Inr (r, v') \<Rightarrow>
            main n s argv = Some (out @ [Report (scast r) ?root], Exit 0) \<and>
            children_first (report_paths (out @ [Report (scast r) ?root]))"
  proof (cases res)
    case (Inl e)
    with args walk show ?thesis
      by (simp add: main_def)
  next
    case (Inr y)
    obtain r v' where "y = (r, v')" by (cases y)
    with Inr args walk whole show ?thesis
      by (simp add: main_def printSize_def)
  qed
  with order below show ?thesis
    by blast
qed

theorem children_before_parent_witness:
  "names_ok demo_sys \<and> trimPath (parsePath [''du'', ''d//'', ''-a'']) = (''d'', 1) \<and>
   parseOptions [''du'', ''d//'', ''-a''] = TRUE \<and>
   getDirectorySize 2 demo_sys ''d'' visited_init TRUE = Some (demo_out, Inr (15, demo_visited)) \<and>
   main 2 demo_sys [''du'', ''d//'', ''-a''] =
     Some ([Report 8 ''d/a'', Report 0 ''d/sub/b'', Report 1 ''d/sub'', Report 2 ''d/f'',
            Report 15 ''d/''], Exit 0) \<and>
   children_first [''d/a'', ''d/sub/b'', ''d/sub'', ''d/f'', ''d/''] \<and>
   \<not> children_first [''d/sub'', ''d/sub/b''] \<and>
   names_ok demo_many \<and>
   main 1 demo_many [''du'', ''-a'', ''m''] =
     Some (map (\<lambda>k. Report 1 (''m/'' @ replicate k CHR ''x'')) [1..<16]
           @ [Message ''addInode(): error reallocing''], Exit 1)"
proof -
  have h: "length [''du'', ''d//'', ''-a''] \<le> 3"
    "trimPath (parsePath [''du'', ''d//'', ''-a'']) = (''d'', 1)"
    "doesPathExist demo_sys ''d'' \<noteq> 0"
    "getDirectorySize 2 demo_sys ''d'' visited_init (parseOptions [''du'', ''d//'', ''-a'']) =
       Some (demo_out, Inr (15, demo_visited))"
    by code_simp+
  have c: "parseOptions [''du'', ''d//'', ''-a''] = TRUE"
    "getDirectorySize 2 demo_sys ''d'' visited_init TRUE = Some (demo_out, Inr (15, demo_visited))"
    "\<not> children_first [''d/sub'', ''d/sub/b'']"
    by code_simp+
  have "inj_on (\<lambda>k. replicate k CHR ''x'') A" for A
    by (auto simp: inj_on_def dest: arg_cong [where f = length])
  then have many: "names_ok demo_many"
    by (auto simp: names_ok_def demo_many_def distinct_map split: if_splits)
  have g: "length [''du'', ''-a'', ''m''] \<le> 3"
    "trimPath (parsePath [''du'', ''-a'', ''m'']) = (''m'', 0)"
    "doesPathExist demo_many ''m'' \<noteq> 0"
    "getDirectorySize 1 demo_many ''m'' visited_init (parseOptions [''du'', ''-a'', ''m'']) =
       Some (map (\<lambda>k. Report 1 (''m/'' @ replicate k CHR ''x'')) [1..<16]
             @ [Message ''addInode(): error reallocing''], Inl (Exit 1))"
    by code_simp+
  from children_before_parent [OF demo_names_ok h] children_before_parent [OF many g]
    c h(2) demo_names_ok many
  show ?thesis
    by (simp add: demo_out_def TRUE_def)
qed

end
